theory Spec2Isabelle
  imports Main
begin

section \<open>The stream processor of \<^verbatim>\<open>server/stream.ts\<close>\<close>

text \<open>
  The program runs on one cooperative event loop. An \<^verbatim>\<open>async\<close> function is
  modelled split at its \<^verbatim>\<open>await\<close>: the part that runs synchronously when the
  function is called, and the continuation that runs when the awaited promise settles.
  The event loop's own state (the clock, the scheduled timeouts, the network calls in
  flight, the console and the exit status) is written out, and every event the loop
  dispatches is one step on that state.
\<close>

subsection \<open>Data\<close>

text \<open>\<^verbatim>\<open>interface CastEvent { fid: number; timestamp: number }\<close>\<close>

record CastEvent =
  fid :: int
  timestamp :: int

text \<open>
  An upstream event, as far as the consume loop reads it:
  \<^verbatim>\<open>event.mergeMessageBody?.message?.data\<close> is absent or carries \<^verbatim>\<open>type\<close> and
  \<^verbatim>\<open>fid\<close>.
\<close>

datatype MessageData = MessageData (data_type: nat) (data_fid: int)

datatype HubEvent = HubEvent (message_data: "MessageData option")

text \<open>What a scheduled timeout calls: \<^verbatim>\<open>() => this.flush()\<close> (line 46) or the
  \<^verbatim>\<open>resolve\<close> of the reconnect delay (line 147).\<close>

datatype callback = FlushCallback | ResolveDelay

record scheduled =
  handle :: nat
  deadline :: nat
  callback :: callback

text \<open>Who awaits the promise returned by \<^verbatim>\<open>flush()\<close>: nobody (lines 36 and 46 call
  it without \<^verbatim>\<open>await\<close>) or the SIGINT handler (line 90).\<close>

datatype waiter = Nobody | SigintHandler

record request =
  req :: nat
  body :: "CastEvent list"
  waiter :: waiter

text \<open>How \<^verbatim>\<open>await fetch(...)\<close> settles: a response with a status, or a rejection.\<close>

datatype fetch_outcome = Status nat | Rejected

datatype error =
    HttpError nat
  | FetchFailed
  | NotReady
  | FailedToSubscribe
  | SubscribeThrew
  | StreamFailed

datatype message =
    KeyRequired
  | Starting
  | WorkerUrl string
  | ShuttingDown
  | Connected
  | Listening
  | Processed nat
  | Sent nat
  | FailedToSend error
  | ConnectionError error
  | Reconnecting

datatype effect =
    ConsoleLog message
  | ConsoleError message
  | GetClient nat
  | WaitForReady nat nat
  | SubscribeCall nat
  | CloseClient nat
  | Fetch string "CastEvent list"
  | ProcessExit int

datatype conn_phase =
    NotStarted
  | Connecting nat
  | Subscribing nat
  | Streaming nat nat
  | Delaying
  | Stalled

text \<open>The fields of \<^verbatim>\<open>class SimpleBatcher\<close> (lines 24 to 30).\<close>

record SimpleBatcher =
  batch :: "CastEvent list"
  timer :: "nat option"
  batchSize :: nat
  timeout :: nat

text \<open>The process: the one batcher of \<^verbatim>\<open>startStream\<close>, extended by the state of the
  event loop. Every effect is recorded with the clock's time.\<close>

record process = SimpleBatcher +
  now :: nat
  timers :: "scheduled list"
  next_handle :: nat
  inflight :: "request list"
  next_req :: nat
  phase :: conn_phase
  clients :: nat
  open_clients :: "nat list"
  trace :: "(nat \<times> effect) list"
  exited :: "int option"
  WORKER_URL :: string

definition BATCH_SIZE :: nat where
  "BATCH_SIZE = 20"

definition BATCH_TIMEOUT :: nat where
  "BATCH_TIMEOUT = 5000"

subsection \<open>The event loop's primitives\<close>

definition emit :: "effect \<Rightarrow> process \<Rightarrow> process" where
  "emit e w = w\<lparr>trace := trace w @ [(now w, e)]\<rparr>"

definition clearTimeout :: "nat \<Rightarrow> process \<Rightarrow> process" where
  "clearTimeout h w = w\<lparr>timers := filter (\<lambda>s. handle s \<noteq> h) (timers w)\<rparr>"

text \<open>The delay a timeout really gets: the runtime takes a delay below 1 or above
  \<open>2\<^sup>3\<^sup>1 - 1\<close> milliseconds as 1 millisecond.\<close>

definition TIMEOUT_MAX :: nat where
  "TIMEOUT_MAX = 2147483647"

definition delay_of :: "nat \<Rightarrow> nat" where
  "delay_of ms = (if 1 \<le> ms \<and> ms \<le> TIMEOUT_MAX then ms else 1)"

definition setTimeout :: "callback \<Rightarrow> nat \<Rightarrow> process \<Rightarrow> nat \<times> process" where
  "setTimeout cb ms w =
     (next_handle w,
      w\<lparr>timers := timers w @
          [\<lparr>handle = next_handle w, deadline = now w + delay_of ms, callback = cb\<rparr>],
        next_handle := Suc (next_handle w)\<rparr>)"

definition process_exit :: "int \<Rightarrow> process \<Rightarrow> process" where
  "process_exit code w = (emit (ProcessExit code) w)\<lparr>exited := Some code\<rparr>"

text \<open>\<^verbatim>\<open>fetch(`${WORKER_URL}/api/batch-casts`, {method: "POST", ...})\<close>: the call is
  issued at once and stays in flight until it settles.\<close>

definition fetch :: "CastEvent list \<Rightarrow> waiter \<Rightarrow> process \<Rightarrow> process" where
  "fetch casts k w =
     emit (Fetch (WORKER_URL w @ ''/api/batch-casts'') casts)
       (w\<lparr>inflight := inflight w @ [\<lparr>req = next_req w, body = casts, waiter = k\<rparr>],
          next_req := Suc (next_req w)\<rparr>)"

text \<open>\<^verbatim>\<open>response.ok\<close>\<close>

definition ok :: "nat \<Rightarrow> bool" where
  "ok st = (200 \<le> st \<and> st \<le> 299)"

subsection \<open>SimpleBatcher\<close>

text \<open>What runs when the promise of \<^verbatim>\<open>flush()\<close> is fulfilled: nothing for a caller
  that did not await it, \<^verbatim>\<open>process.exit(0)\<close> (line 91) for the SIGINT handler.\<close>

definition resume :: "waiter \<Rightarrow> process \<Rightarrow> process" where
  "resume k w = (case k of Nobody \<Rightarrow> w | SigintHandler \<Rightarrow> process_exit 0 w)"

text \<open>\<^verbatim>\<open>flush\<close>, lines 50 to 66: from the call to the \<^verbatim>\<open>await\<close> of \<^verbatim>\<open>fetch\<close>. With an
  empty batch the function returns at line 51 and its promise is fulfilled at once.\<close>

definition flush :: "waiter \<Rightarrow> process \<Rightarrow> process" where
  "flush k w =
     (if length (batch w) = 0 then resume k w
      else
        let batchToSend = batch w;
            w1 = w\<lparr>batch := []\<rparr>;
            w2 = (case timer w1 of
                    None \<Rightarrow> w1
                  | Some h \<Rightarrow> (clearTimeout h w1)\<lparr>timer := None\<rparr>)
        in fetch batchToSend k w2)"

text \<open>Lines 62 to 72 after the \<^verbatim>\<open>await\<close>: the rest of the \<^verbatim>\<open>try\<close> block, which
  throws on a rejected fetch and on a response that is not ok.\<close>

definition try_block :: "CastEvent list \<Rightarrow> fetch_outcome \<Rightarrow> process \<Rightarrow> error + process" where
  "try_block batchToSend out w =
     (case out of
        Rejected \<Rightarrow> Inl FetchFailed
      | Status st \<Rightarrow>
          if \<not> ok st then Inl (HttpError st)
          else Inr (emit (ConsoleLog (Sent (length batchToSend))) w))"

text \<open>Lines 73 to 77: the \<^verbatim>\<open>catch\<close> block.\<close>

definition catch_block :: "CastEvent list \<Rightarrow> error \<Rightarrow> process \<Rightarrow> process" where
  "catch_block batchToSend err w =
     (let w1 = emit (ConsoleError (FailedToSend err)) w
      in w1\<lparr>batch := take 10 batchToSend @ batch w1\<rparr>)"

text \<open>\<^verbatim>\<open>flush\<close> from the \<^verbatim>\<open>await\<close> on: \<open>Inl\<close> would be a rejected promise, \<open>Inr\<close> is a
  fulfilled one.\<close>

definition flush_settled :: "CastEvent list \<Rightarrow> fetch_outcome \<Rightarrow> process \<Rightarrow> error + process" where
  "flush_settled batchToSend out w =
     (case try_block batchToSend out w of
        Inr w' \<Rightarrow> Inr w'
      | Inl err \<Rightarrow> Inr (catch_block batchToSend err w))"

text \<open>\<^verbatim>\<open>resetTimer\<close>, lines 42 to 48.\<close>

definition resetTimer :: "process \<Rightarrow> process" where
  "resetTimer w =
     (let w1 = (case timer w of None \<Rightarrow> w | Some h \<Rightarrow> clearTimeout h w)
      in if length (batch w1) > 0
         then (let (h, w2) = setTimeout FlushCallback (timeout w1) w1
               in w2\<lparr>timer := Some h\<rparr>)
         else w1)"

text \<open>\<^verbatim>\<open>add\<close>, lines 32 to 40. The call \<^verbatim>\<open>this.flush()\<close> is not awaited.\<close>

definition add :: "CastEvent \<Rightarrow> process \<Rightarrow> process" where
  "add cast w =
     (let w1 = w\<lparr>batch := batch w @ [cast]\<rparr>
      in if length (batch w1) \<ge> batchSize w1 then flush Nobody w1 else resetTimer w1)"

subsection \<open>The connection loop of startStream\<close>

text \<open>Lines 96 to 104: a new client, and \<^verbatim>\<open>waitForReady\<close> with a deadline of ten
  seconds from now. The loop then waits for the callback.\<close>

definition connect :: "process \<Rightarrow> process" where
  "connect w =
     (let c = clients w;
          w1 = emit (GetClient c) w;
          w2 = emit (WaitForReady c (now w1 + 10000)) w1
      in w2\<lparr>phase := Connecting c, open_clients := open_clients w2 @ [c], clients := Suc c\<rparr>)"

text \<open>\<^verbatim>\<open>client.close()\<close>, line 140.\<close>

definition close :: "nat \<Rightarrow> process \<Rightarrow> process" where
  "close c w = (emit (CloseClient c) w)\<lparr>open_clients := removeAll c (open_clients w)\<rparr>"

text \<open>Lines 144 to 148: the outer \<^verbatim>\<open>catch\<close>. It logs and waits ten seconds; the
  \<^verbatim>\<open>while (true)\<close> goes round when the delay's timeout resolves.\<close>

definition outer_catch :: "error \<Rightarrow> process \<Rightarrow> process" where
  "outer_catch err w =
     (let w1 = emit (ConsoleError (ConnectionError err)) w;
          w2 = emit (ConsoleLog Reconnecting) w1;
          (h, w3) = setTimeout ResolveDelay 10000 w2
      in w3\<lparr>phase := Delaying\<rparr>)"

text \<open>The callback of \<^verbatim>\<open>waitForReady\<close>, lines 104 to 115: with an error it rejects and
  returns (lines 105 to 108), before the \<^verbatim>\<open>try\<close> whose \<^verbatim>\<open>finally\<close> closes the
  client; otherwise it subscribes.\<close>

definition on_ready :: "bool \<Rightarrow> process \<Rightarrow> process" where
  "on_ready e w =
     (case phase w of
        Connecting c \<Rightarrow>
          if e then outer_catch NotReady w
          else (emit (SubscribeCall c) (emit (ConsoleLog Connected) w))\<lparr>phase := Subscribing c\<rparr>
      | _ \<Rightarrow> w)"

datatype subscribe_outcome = IsOk | IsErr | Threw

text \<open>Lines 117 to 141 when \<^verbatim>\<open>await client.subscribe(...)\<close> settles. A reject is
  followed by the \<^verbatim>\<open>finally\<close> before the outer \<^verbatim>\<open>catch\<close> runs.\<close>

definition on_subscribed :: "subscribe_outcome \<Rightarrow> process \<Rightarrow> process" where
  "on_subscribed r w =
     (case phase w of
        Subscribing c \<Rightarrow>
          (case r of
             IsOk \<Rightarrow> (emit (ConsoleLog Listening) w)\<lparr>phase := Streaming c 0\<rparr>
           | IsErr \<Rightarrow> outer_catch FailedToSubscribe (close c w)
           | Threw \<Rightarrow> outer_catch SubscribeThrew (close c w))
      | _ \<Rightarrow> w)"

text \<open>The body of \<^verbatim>\<open>for await (const event of stream)\<close>, lines 124 to 132.\<close>

definition on_event :: "HubEvent \<Rightarrow> process \<Rightarrow> process" where
  "on_event event w =
     (case phase w of
        Streaming c castCount \<Rightarrow>
          (case message_data event of
             None \<Rightarrow> w
           | Some d \<Rightarrow>
               if data_type d = 1 then
                 let w1 = add \<lparr>fid = data_fid d, timestamp = int (now w)\<rparr> w;
                     castCount' = castCount + 1;
                     w2 = (if castCount' mod 100 = 0
                           then emit (ConsoleLog (Processed castCount')) w1 else w1)
                 in w2\<lparr>phase := Streaming c castCount'\<rparr>
               else w)
      | _ \<Rightarrow> w)"

text \<open>The stream raises: inner \<^verbatim>\<open>catch\<close> (reject), \<^verbatim>\<open>finally\<close>, outer \<^verbatim>\<open>catch\<close>.\<close>

definition on_stream_error :: "process \<Rightarrow> process" where
  "on_stream_error w =
     (case phase w of
        Streaming c castCount \<Rightarrow> outer_catch StreamFailed (close c w)
      | _ \<Rightarrow> w)"

text \<open>The stream ends: the loop of line 123 is left, the \<^verbatim>\<open>finally\<close> closes the client,
  and neither \<^verbatim>\<open>resolve\<close> nor \<^verbatim>\<open>reject\<close> is called, so the \<^verbatim>\<open>await\<close> of line 103
  never returns.\<close>

definition on_stream_end :: "process \<Rightarrow> process" where
  "on_stream_end w =
     (case phase w of
        Streaming c castCount \<Rightarrow> (close c w)\<lparr>phase := Stalled\<rparr>
      | _ \<Rightarrow> w)"

text \<open>A timeout fires: the event loop drops it and runs its callback.\<close>

definition fire :: "scheduled \<Rightarrow> process \<Rightarrow> process" where
  "fire s w =
     (let w1 = w\<lparr>timers := remove1 s (timers w)\<rparr>
      in case callback s of
           FlushCallback \<Rightarrow> flush Nobody w1
         | ResolveDelay \<Rightarrow> connect w1)"

text \<open>A fetch settles: \<^verbatim>\<open>flush\<close> goes on after its \<^verbatim>\<open>await\<close>, and then whoever awaits
  \<^verbatim>\<open>flush\<close>. A rejected promise of \<^verbatim>\<open>flush\<close> would be an unhandled rejection, which
  ends the process with status 1.\<close>

definition settle :: "request \<Rightarrow> fetch_outcome \<Rightarrow> process \<Rightarrow> process" where
  "settle r out w =
     (let w1 = w\<lparr>inflight := remove1 r (inflight w)\<rparr>
      in case flush_settled (body r) out w1 of
           Inr w2 \<Rightarrow> resume (waiter r) w2
         | Inl err \<Rightarrow> process_exit 1 w1)"

text \<open>The SIGINT handler, lines 88 to 92.\<close>

definition on_sigint :: "process \<Rightarrow> process" where
  "on_sigint w = flush SigintHandler (emit (ConsoleLog ShuttingDown) w)"

text \<open>\<^verbatim>\<open>startStream\<close>, lines 81 to 96: the log lines, the batcher with its default
  arguments, and the first round of the loop.\<close>

definition startStream :: "process \<Rightarrow> process" where
  "startStream w =
     (let w1 = emit (ConsoleLog Starting) w;
          w2 = emit (ConsoleLog (WorkerUrl (WORKER_URL w1))) w1;
          w3 = w2\<lparr>batch := [], timer := None, batchSize := BATCH_SIZE, timeout := BATCH_TIMEOUT\<rparr>
      in connect w3)"

text \<open>The module's top level, lines 8 to 16 and 152: \<^verbatim>\<open>process.env\<close> is a map from
  names to strings; an absent or empty value is falsy.\<close>

definition falsy :: "string option \<Rightarrow> bool" where
  "falsy v = (case v of None \<Rightarrow> True | Some s \<Rightarrow> s = [])"

definition boot :: "(string \<rightharpoonup> string) \<Rightarrow> nat \<Rightarrow> process" where
  "boot env t =
     \<lparr>batch = [], timer = None, batchSize = BATCH_SIZE, timeout = BATCH_TIMEOUT,
      now = t, timers = [], next_handle = 0, inflight = [], next_req = 0,
      phase = NotStarted, clients = 0, open_clients = [], trace = [], exited = None,
      WORKER_URL = (if falsy (env ''WORKER_URL'') then ''https://your-worker.workers.dev''
                    else the (env ''WORKER_URL''))\<rparr>"

definition main :: "(string \<rightharpoonup> string) \<Rightarrow> nat \<Rightarrow> process" where
  "main env t =
     (let w = boot env t
      in if falsy (env ''NEYNAR_API_KEY'')
         then process_exit 1 (emit (ConsoleError KeyRequired) w)
         else startStream w)"

subsection \<open>Steps\<close>

text \<open>The steps of the batcher alone: its two public methods, a timeout that fires and
  a fetch that settles.\<close>

datatype call = Add CastEvent | Flush | TimerFire nat | Settle nat fetch_outcome

definition exec :: "call \<Rightarrow> process \<Rightarrow> process" where
  "exec c w =
     (case c of
        Add cast \<Rightarrow> add cast w
      | Flush \<Rightarrow> flush Nobody w
      | TimerFire h \<Rightarrow>
          (case find (\<lambda>s. handle s = h) (timers w) of
             None \<Rightarrow> w
           | Some s \<Rightarrow> fire s w)
      | Settle i out \<Rightarrow>
          (case find (\<lambda>r. req r = i) (inflight w) of
             None \<Rightarrow> w
           | Some r \<Rightarrow> settle r out w))"

fun exec_all :: "call list \<Rightarrow> process \<Rightarrow> process" where
  "exec_all [] w = w"
| "exec_all (c # cs) w = exec_all cs (exec c w)"

text \<open>The events the loop of the whole process dispatches. A timeout fires at or after
  its deadline; nothing runs once the process has exited. Line 88 registers a handler for
  SIGINT only: SIGTERM has none, so it ends the process at once, with no code of the
  program run and the status of a process killed by signal 15.\<close>

datatype event =
    Ready bool
  | Subscribed subscribe_outcome
  | StreamNext HubEvent
  | StreamThrows
  | StreamEnds
  | TimerFires nat
  | FetchSettles nat fetch_outcome
  | Sigint
  | Sigterm
  | Elapse nat

definition step :: "event \<Rightarrow> process \<Rightarrow> process" where
  "step ev w =
     (if exited w \<noteq> None then w
      else case ev of
        Ready e \<Rightarrow> on_ready e w
      | Subscribed r \<Rightarrow> on_subscribed r w
      | StreamNext event \<Rightarrow> on_event event w
      | StreamThrows \<Rightarrow> on_stream_error w
      | StreamEnds \<Rightarrow> on_stream_end w
      | TimerFires h \<Rightarrow>
          (case find (\<lambda>s. handle s = h \<and> deadline s \<le> now w) (timers w) of
             None \<Rightarrow> w
           | Some s \<Rightarrow> fire s w)
      | FetchSettles i out \<Rightarrow>
          (case find (\<lambda>r. req r = i) (inflight w) of
             None \<Rightarrow> w
           | Some r \<Rightarrow> settle r out w)
      | Sigint \<Rightarrow> on_sigint w
      | Sigterm \<Rightarrow> w\<lparr>exited := Some (128 + 15)\<rparr>
      | Elapse d \<Rightarrow> w\<lparr>now := now w + d\<rparr>)"

fun run :: "event list \<Rightarrow> process \<Rightarrow> process" where
  "run [] w = w"
| "run (ev # evs) w = run evs (step ev w)"

subsection \<open>A punctual clock\<close>

text \<open>The timeouts due by time \<open>t\<close>, and the one the loop runs first: the earliest
  deadline, the one scheduled first among equals.\<close>

definition due :: "nat \<Rightarrow> process \<Rightarrow> scheduled list" where
  "due t w = filter (\<lambda>s. deadline s \<le> t) (timers w)"

fun earliest :: "scheduled list \<Rightarrow> scheduled option" where
  "earliest [] = None"
| "earliest (s # ss) =
     (case earliest ss of
        None \<Rightarrow> Some s
      | Some m \<Rightarrow> if deadline m < deadline s then Some m else Some s)"

text \<open>Time passes until \<open>t\<close> with every timeout firing at its deadline.\<close>

function advance_to :: "nat \<Rightarrow> process \<Rightarrow> process" where
  "advance_to t w =
     (case earliest (due t w) of
        None \<Rightarrow> w\<lparr>now := max (now w) t\<rparr>
      | Some s \<Rightarrow> advance_to t (fire s (w\<lparr>now := max (now w) (deadline s)\<rparr>)))"
  by pat_completeness auto

text \<open>Firing removes a timeout and no callback schedules one, so the loop ends.\<close>

termination
proof (relation "measure (\<lambda>(t, w). length (timers w))")
  show "wf (measure (\<lambda>(t, w). length (timers w)))"
    by simp
next
  fix t :: nat and w :: process and s :: scheduled
  assume e: "earliest (due t w) = Some s"
  have mem: "m \<in> set ss" if "earliest ss = Some m" for ss m
    using that by (induction ss arbitrary: m) (auto split: option.splits if_splits)
  have "s \<in> set (due t w)"
    using e by (rule mem)
  then have s: "s \<in> set (timers w)"
    by (simp add: due_def)
  have shrink: "length (timers (flush k v)) \<le> length (timers v)" for k v
    by (auto simp: flush_def resume_def process_exit_def emit_def fetch_def clearTimeout_def
        Let_def split: option.splits waiter.splits)
  have keep: "timers (connect v) = timers v" for v
    by (simp add: connect_def emit_def Let_def)
  let ?w1 = "w\<lparr>now := max (now w) (deadline s), timers := remove1 s (timers w)\<rparr>"
  have "length (timers (fire s (w\<lparr>now := max (now w) (deadline s)\<rparr>))) \<le> length (timers ?w1)"
    using shrink [of Nobody ?w1] keep [of ?w1]
    by (cases "callback s") (simp_all add: fire_def Let_def)
  also have "\<dots> < length (timers w)"
    using s length_pos_if_in_set [of s "timers w"] by (simp add: length_remove1)
  finally show "((t, fire s (w\<lparr>now := max (now w) (deadline s)\<rparr>)), (t, w))
      \<in> measure (\<lambda>(t, w). length (timers w))"
    by simp
qed

declare advance_to.simps [simp del]

text \<open>Events arrive one after the other, each after the given wait.\<close>

fun arrive :: "(nat \<times> CastEvent) list \<Rightarrow> process \<Rightarrow> process" where
  "arrive [] w = w"
| "arrive ((d, cast) # rest) w = arrive rest (add cast (advance_to (now w + d) w))"

subsection \<open>Observations\<close>

text \<open>The delivery calls made so far, in order: the time and the payload of each.\<close>

fun deliveries :: "(nat \<times> effect) list \<Rightarrow> (nat \<times> CastEvent list) list" where
  "deliveries [] = []"
| "deliveries ((t, Fetch url casts) # es) = (t, casts) # deliveries es"
| "deliveries (e # es) = deliveries es"

definition payloads :: "process \<Rightarrow> CastEvent list list" where
  "payloads w = map snd (deliveries (trace w))"

text \<open>The live idle timers.\<close>

definition idle_timers :: "process \<Rightarrow> scheduled list" where
  "idle_timers w = filter (\<lambda>s. callback s = FlushCallback) (timers w)"

text \<open>A delivery attempt fails on a rejected fetch and on a status outside 200 to 299.\<close>

definition failed :: "fetch_outcome \<Rightarrow> bool" where
  "failed out = (case out of Rejected \<Rightarrow> True | Status st \<Rightarrow> st < 200 \<or> 299 < st)"

text \<open>What ties the batcher's \<^verbatim>\<open>timer\<close> field to the event loop: no idle timer is live,
  or exactly one is, the field holds its handle and events are pending.\<close>

definition batcher_inv :: "process \<Rightarrow> bool" where
  "batcher_inv w =
     (case idle_timers w of
        [] \<Rightarrow> True
      | [s] \<Rightarrow> timer w = Some (handle s) \<and> batch w \<noteq> []
      | _ \<Rightarrow> False)"

text \<open>At most one idle timer is live, and one is live only while events are pending.\<close>

definition idle_timer_ok :: "process \<Rightarrow> bool" where
  "idle_timer_ok w =
     (length (idle_timers w) \<le> 1 \<and>
      (idle_timers w \<noteq> [] \<longrightarrow> batch w \<noteq> []) \<and>
      (batch w = [] \<longrightarrow> idle_timers w = []))"

text \<open>The events a sequence of calls adds, in order.\<close>

fun added :: "call list \<Rightarrow> CastEvent list" where
  "added [] = []"
| "added (Add cast # cs) = cast # added cs"
| "added (c # cs) = added cs"

definition is_settle :: "call \<Rightarrow> bool" where
  "is_settle c = (case c of Settle i out \<Rightarrow> True | _ \<Rightarrow> False)"

text \<open>The calls that are neither \<^verbatim>\<open>add\<close> nor \<^verbatim>\<open>flush\<close>: what the event loop does on
  its own.\<close>

definition is_loop_event :: "call \<Rightarrow> bool" where
  "is_loop_event c = (case c of TimerFire h \<Rightarrow> True | Settle i out \<Rightarrow> True | _ \<Rightarrow> False)"

text \<open>The delivery calls of a process, each with the time it was made.\<close>

definition calls :: "process \<Rightarrow> (nat \<times> CastEvent list) list" where
  "calls w = deliveries (trace w)"

text \<open>Two states in which the batcher and its delivery calls are the same.\<close>

definition same_batcher :: "process \<Rightarrow> process \<Rightarrow> bool" where
  "same_batcher w' w =
     (batch w' = batch w \<and> timer w' = timer w \<and> idle_timers w' = idle_timers w \<and>
      calls w' = calls w \<and> batchSize w' = batchSize w \<and> timeout w' = timeout w)"



subsection \<open>Sample inputs\<close>

definition cast_n :: "nat \<Rightarrow> CastEvent" where
  "cast_n n = \<lparr>fid = int n, timestamp = 1000 + int n\<rparr>"

definition casts_upto :: "nat \<Rightarrow> CastEvent list" where
  "casts_upto n = map cast_n [0..<n]"

definition sample_env :: "string \<rightharpoonup> string" where
  "sample_env = [''NEYNAR_API_KEY'' \<mapsto> ''key'']"

definition started :: process where
  "started = main sample_env 0"



section \<open>Properties\<close>

lemma started_fields:
  "batch started = []" "timer started = None" "batchSize started = 20" "timeout started = 5000"
  "timers started = []" "inflight started = []" "next_req started = 0" "now started = 0"
  "exited started = None" "payloads started = []" "phase started = Connecting 0"
  "next_handle started = 0" "idle_timers started = []"
  by (simp_all add: started_def main_def sample_env_def falsy_def boot_def startStream_def
      connect_def emit_def Let_def BATCH_SIZE_def BATCH_TIMEOUT_def payloads_def idle_timers_def)

lemma delay_of_in_range: "1 \<le> ms \<Longrightarrow> ms \<le> TIMEOUT_MAX \<Longrightarrow> delay_of ms = ms"
  by (simp add: delay_of_def)

lemma delay_of_defaults [simp]: "delay_of 5000 = 5000" "delay_of 10000 = 10000"
  by (simp_all add: delay_of_def TIMEOUT_MAX_def)

subsection \<open>The batcher and its idle timer\<close>

lemma batcher_inv_iff:
  "batcher_inv w \<longleftrightarrow>
     idle_timers w = [] \<or> (\<exists>s. idle_timers w = [s] \<and> timer w = Some (handle s) \<and> batch w \<noteq> [])"
  by (auto simp: batcher_inv_def split: list.splits)

lemma idle_timers_cong: "timers w' = timers w \<Longrightarrow> idle_timers w' = idle_timers w"
  by (simp add: idle_timers_def)

lemma inv_cong:
  "timers w' = timers w \<Longrightarrow> timer w' = timer w \<Longrightarrow> batch w' = batch w \<Longrightarrow>
   batcher_inv w' = batcher_inv w"
  by (simp add: batcher_inv_iff idle_timers_def)

lemma inv_no_idle: "idle_timers w = [] \<Longrightarrow> batcher_inv w"
  by (simp add: batcher_inv_def)

lemma idle_timers_cleared:
  "batcher_inv w \<Longrightarrow> timer w = Some h \<Longrightarrow> filter (\<lambda>s. handle s \<noteq> h) (idle_timers w) = []"
  by (auto simp: batcher_inv_iff)

lemma idle_timers_clearTimeout:
  "idle_timers (clearTimeout h w) = filter (\<lambda>s. handle s \<noteq> h) (idle_timers w)"
  by (auto simp: clearTimeout_def idle_timers_def intro: filter_cong)

lemma flush_nonempty:
  "batch w \<noteq> [] \<Longrightarrow>
   flush k w =
     fetch (batch w) k
       (case timer w of
          None \<Rightarrow> w\<lparr>batch := []\<rparr>
        | Some h \<Rightarrow> (clearTimeout h (w\<lparr>batch := []\<rparr>))\<lparr>timer := None\<rparr>)"
  by (simp add: flush_def Let_def)

lemma flush_empty: "batch w = [] \<Longrightarrow> flush k w = resume k w"
  by (simp add: flush_def)

lemma add_cases:
  "add cast w =
     (if batchSize w \<le> Suc (length (batch w)) then flush Nobody (w\<lparr>batch := batch w @ [cast]\<rparr>)
      else resetTimer (w\<lparr>batch := batch w @ [cast]\<rparr>))"
  by (simp add: add_def Let_def)

lemma resume_fields [simp]:
  "timers (resume k w) = timers w"
  "batch (resume k w) = batch w"
  "timer (resume k w) = timer w"
  "inflight (resume k w) = inflight w"
  "batchSize (resume k w) = batchSize w"
  "timeout (resume k w) = timeout w"
  "now (resume k w) = now w"
  by (cases k; simp add: resume_def process_exit_def emit_def)+

lemma fetch_fields [simp]:
  "timers (fetch b k w) = timers w"
  "batch (fetch b k w) = batch w"
  "timer (fetch b k w) = timer w"
  "batchSize (fetch b k w) = batchSize w"
  "timeout (fetch b k w) = timeout w"
  "now (fetch b k w) = now w"
  "exited (fetch b k w) = exited w"
  "inflight (fetch b k w) = inflight w @ [\<lparr>req = next_req w, body = b, waiter = k\<rparr>]"
  by (simp_all add: fetch_def emit_def)

lemma flush_nonempty_fields:
  assumes "batch w \<noteq> []"
  shows "batch (flush k w) = []" and "timer (flush k w) = None"
    and "idle_timers (flush k w)
           = (case timer w of None \<Rightarrow> idle_timers w
              | Some h \<Rightarrow> filter (\<lambda>s. handle s \<noteq> h) (idle_timers w))"
    and "batchSize (flush k w) = batchSize w" and "timeout (flush k w) = timeout w"
    and "now (flush k w) = now w" and "exited (flush k w) = exited w"
  using assms
  by (simp_all add: flush_nonempty idle_timers_clearTimeout [symmetric]
      cong: idle_timers_cong split: option.splits)
     (simp_all add: clearTimeout_def idle_timers_def)

lemma idle_timers_flush_nonempty:
  assumes "batcher_inv w" and "batch w \<noteq> []"
  shows "idle_timers (flush k w) = []"
proof (cases "timer w")
  case None
  then have "idle_timers w = []"
    using assms(1) by (auto simp: batcher_inv_iff)
  then show ?thesis
    using assms(2) None by (simp add: flush_nonempty_fields)
next
  case (Some h)
  then show ?thesis
    using assms idle_timers_cleared [OF assms(1) Some] by (simp add: flush_nonempty_fields)
qed

lemma inv_flush: "batcher_inv w \<Longrightarrow> batcher_inv (flush k w)"
proof (cases "batch w = []")
  case True
  assume "batcher_inv w"
  then show ?thesis
    using True inv_cong [of "resume k w" w] by (simp add: flush_empty)
next
  case False
  assume "batcher_inv w"
  then show ?thesis
    using idle_timers_flush_nonempty [OF _ False, of k] by (simp add: inv_no_idle)
qed

lemma inv_resetTimer:
  assumes "batcher_inv w" and "batch w \<noteq> []"
  shows "batcher_inv (resetTimer w)"
proof -
  let ?w1 = "case timer w of None \<Rightarrow> w | Some h \<Rightarrow> clearTimeout h w"
  have "idle_timers ?w1 = []"
  proof (cases "timer w")
    case None
    then show ?thesis using assms(1) by (auto simp: batcher_inv_iff)
  next
    case (Some h)
    then show ?thesis
      using idle_timers_cleared [OF assms(1) Some] by (simp add: idle_timers_clearTimeout)
  qed
  moreover have "batch ?w1 = batch w"
    by (simp add: clearTimeout_def split: option.splits)
  ultimately show ?thesis
    using assms(2)
    by (simp add: resetTimer_def Let_def setTimeout_def batcher_inv_def idle_timers_def)
qed

lemma inv_push: "batcher_inv w \<Longrightarrow> batcher_inv (w\<lparr>batch := batch w @ xs\<rparr>)"
  by (auto simp: batcher_inv_iff idle_timers_def)

lemma inv_unshift: "batcher_inv w \<Longrightarrow> batcher_inv (w\<lparr>batch := xs @ batch w\<rparr>)"
  by (auto simp: batcher_inv_iff idle_timers_def)

lemma inv_add: "batcher_inv w \<Longrightarrow> batcher_inv (add cast w)"
  using inv_flush [of "w\<lparr>batch := batch w @ [cast]\<rparr>" Nobody]
    inv_resetTimer [of "w\<lparr>batch := batch w @ [cast]\<rparr>"] inv_push [of w "[cast]"]
  by (simp add: add_def Let_def)

lemma connect_fields [simp]:
  "timers (connect w) = timers w"
  "batch (connect w) = batch w"
  "timer (connect w) = timer w"
  "inflight (connect w) = inflight w"
  "batchSize (connect w) = batchSize w"
  "timeout (connect w) = timeout w"
  "now (connect w) = now w"
  by (simp_all add: connect_def emit_def Let_def)

lemma inv_connect: "batcher_inv w \<Longrightarrow> batcher_inv (connect w)"
  using inv_cong [of "connect w" w] by simp

lemma inv_fire:
  assumes "batcher_inv w"
  shows "batcher_inv (fire s w)"
proof (cases "callback s")
  case FlushCallback
  let ?w1 = "w\<lparr>timers := remove1 s (timers w)\<rparr>"
  have "idle_timers ?w1 = remove1 s (idle_timers w)"
    by (simp add: idle_timers_def filter_remove1)
  moreover have "remove1 s (idle_timers w) = [] \<or> remove1 s (idle_timers w) = idle_timers w"
    using assms by (auto simp: batcher_inv_iff split: if_splits)
  moreover have "timer ?w1 = timer w" "batch ?w1 = batch w"
    by simp_all
  ultimately have "batcher_inv ?w1"
    using assms unfolding batcher_inv_iff by metis
  then show ?thesis
    using FlushCallback by (simp add: fire_def Let_def inv_flush)
next
  case ResolveDelay
  let ?w1 = "w\<lparr>timers := remove1 s (timers w)\<rparr>"
  have "s \<notin> set (idle_timers w)"
    using ResolveDelay by (simp add: idle_timers_def)
  then have "idle_timers ?w1 = idle_timers w"
    by (simp add: idle_timers_def filter_remove1 remove1_idem)
  then have "batcher_inv ?w1"
    using assms by (simp add: batcher_inv_iff)
  then show ?thesis
    using ResolveDelay by (simp add: fire_def Let_def inv_connect)
qed

lemma inv_resume: "batcher_inv w \<Longrightarrow> batcher_inv (resume k w)"
  using inv_cong [of "resume k w" w] by simp

lemma inv_settle:
  assumes "batcher_inv w"
  shows "batcher_inv (settle r out w)"
proof -
  let ?w1 = "w\<lparr>inflight := remove1 r (inflight w)\<rparr>"
  have 1: "batcher_inv ?w1"
    using assms inv_cong [of ?w1 w] by simp
  have 2: "batcher_inv (emit e v)" if "batcher_inv v" for e v
    using that inv_cong [of "emit e v" v] by (simp add: emit_def)
  have "batcher_inv w'" if "flush_settled (body r) out ?w1 = Inr w'" for w'
  proof (cases "try_block (body r) out ?w1")
    case (Inl err)
    then have "w' = catch_block (body r) err ?w1"
      using that by (simp add: flush_settled_def)
    then show ?thesis
      using inv_unshift [OF 2 [OF 1], of "take 10 (body r)" "ConsoleError (FailedToSend err)"]
      by (simp add: catch_block_def Let_def)
  next
    case (Inr v)
    then have "w' = v" using that by (simp add: flush_settled_def)
    then show ?thesis
      using Inr 2 [OF 1] by (auto simp: try_block_def split: fetch_outcome.splits if_splits)
  qed
  moreover have "batcher_inv (process_exit 1 ?w1)"
    using 1 inv_cong [of "process_exit 1 ?w1" ?w1] by (simp add: process_exit_def emit_def)
  ultimately show ?thesis
    by (auto simp: settle_def Let_def inv_resume split: sum.splits)
qed

lemma inv_exec: "batcher_inv w \<Longrightarrow> batcher_inv (exec c w)"
  by (cases c) (simp_all add: exec_def inv_add inv_flush inv_fire inv_settle split: option.splits)

lemma inv_exec_all: "batcher_inv w \<Longrightarrow> batcher_inv (exec_all cs w)"
  by (induction cs arbitrary: w) (simp_all add: inv_exec)

lemma inv_emit: "batcher_inv w \<Longrightarrow> batcher_inv (emit e w)"
  using inv_cong [of "emit e w" w] by (simp add: emit_def)

lemma inv_close: "batcher_inv w \<Longrightarrow> batcher_inv (close c w)"
  using inv_cong [of "close c w" w] by (simp add: close_def emit_def)

lemma inv_outer_catch: "batcher_inv w \<Longrightarrow> batcher_inv (outer_catch err w)"
  by (simp add: outer_catch_def Let_def setTimeout_def emit_def batcher_inv_iff idle_timers_def)

lemma inv_phase: "batcher_inv w \<Longrightarrow> batcher_inv (w\<lparr>phase := p\<rparr>)"
  using inv_cong [of "w\<lparr>phase := p\<rparr>" w] by simp

lemma inv_on_ready: "batcher_inv w \<Longrightarrow> batcher_inv (on_ready e w)"
  by (simp add: on_ready_def inv_outer_catch inv_emit inv_phase split: conn_phase.splits)

lemma inv_on_subscribed: "batcher_inv w \<Longrightarrow> batcher_inv (on_subscribed r w)"
  by (simp add: on_subscribed_def inv_outer_catch inv_close inv_emit inv_phase
      split: conn_phase.splits subscribe_outcome.splits)

lemma inv_on_event: "batcher_inv w \<Longrightarrow> batcher_inv (on_event event w)"
  by (simp add: on_event_def Let_def inv_add inv_emit inv_phase
      split: conn_phase.splits option.splits)

lemma inv_on_stream_error: "batcher_inv w \<Longrightarrow> batcher_inv (on_stream_error w)"
  by (simp add: on_stream_error_def inv_outer_catch inv_close split: conn_phase.splits)

lemma inv_on_stream_end: "batcher_inv w \<Longrightarrow> batcher_inv (on_stream_end w)"
  by (simp add: on_stream_end_def inv_close inv_phase split: conn_phase.splits)

lemma inv_on_sigint: "batcher_inv w \<Longrightarrow> batcher_inv (on_sigint w)"
  by (simp add: on_sigint_def inv_flush inv_emit)

lemma inv_elapse: "batcher_inv w \<Longrightarrow> batcher_inv (w\<lparr>now := t\<rparr>)"
  using inv_cong [of "w\<lparr>now := t\<rparr>" w] by simp

lemma inv_killed: "batcher_inv w \<Longrightarrow> batcher_inv (w\<lparr>exited := c\<rparr>)"
  using inv_cong [of "w\<lparr>exited := c\<rparr>" w] by simp

lemma inv_step: "batcher_inv w \<Longrightarrow> batcher_inv (step ev w)"
  by (cases ev)
    (simp_all add: step_def inv_on_ready inv_on_subscribed inv_on_event inv_on_stream_error
      inv_on_stream_end inv_on_sigint inv_elapse inv_killed inv_fire inv_settle
      split: option.splits)

lemma inv_run: "batcher_inv w \<Longrightarrow> batcher_inv (run evs w)"
  by (induction evs arbitrary: w) (simp_all add: inv_step)

lemma idle_timers_main: "idle_timers (main env t) = []"
  by (simp add: main_def boot_def startStream_def connect_def process_exit_def emit_def Let_def
      idle_timers_def)

lemma inv_idle_timer_ok: "batcher_inv w \<Longrightarrow> idle_timer_ok w"
  by (auto simp: batcher_inv_iff idle_timer_ok_def)

text \<open>
  C5. In every state the batcher reaches by any sequence of \<^verbatim>\<open>add\<close>, \<^verbatim>\<open>flush\<close>, timer
  firings and settling fetches, from a state in which no idle timer is live, at most one
  idle timer is live, a live idle timer means the pending batch is not empty, and an
  empty pending batch means no idle timer is live. The same holds in every state the
  whole process reaches from its start by any sequence of events.
\<close>

theorem at_most_one_idle_timer:
  assumes "idle_timers w = []"
  shows "idle_timer_ok (exec_all cs w) \<and> idle_timer_ok (run evs (main env t))"
  using inv_exec_all [OF inv_no_idle [OF assms], of cs]
    inv_run [OF inv_no_idle [OF idle_timers_main], of evs env t]
  by (simp add: inv_idle_timer_ok)

lemma exec_add_started:
  "idle_timers (exec_all [Add (cast_n 1), Add (cast_n 2)] started)
     = [\<lparr>handle = 1, deadline = 5000, callback = FlushCallback\<rparr>]"
  "batch (exec_all [Add (cast_n 1), Add (cast_n 2)] started) = [cast_n 1, cast_n 2]"
  by (simp_all add: exec_def add_cases started_fields resetTimer_def setTimeout_def clearTimeout_def
      idle_timers_def Let_def)

theorem at_most_one_idle_timer_witness:
  "idle_timers started = [] \<and>
   idle_timers (exec_all [Add (cast_n 1), Add (cast_n 2)] started) \<noteq> [] \<and>
   idle_timer_ok (exec_all [Add (cast_n 1), Add (cast_n 2)] started) \<and>
   idle_timer_ok (run [Ready False, Subscribed IsOk] (main sample_env 0))"
  using at_most_one_idle_timer [of started "[Add (cast_n 1), Add (cast_n 2)]"
      "[Ready False, Subscribed IsOk]" sample_env 0] exec_add_started
  by (simp add: started_fields)

subsection \<open>Delivery calls and the pending batch\<close>

lemma deliveries_append: "deliveries (xs @ ys) = deliveries xs @ deliveries ys"
  by (induction xs rule: deliveries.induct) simp_all

lemma payloads_emit:
  "payloads (emit e w) = payloads w @ (case e of Fetch url casts \<Rightarrow> [casts] | _ \<Rightarrow> [])"
  by (cases e) (simp_all add: payloads_def emit_def deliveries_append)

lemma payloads_cong: "trace w' = trace w \<Longrightarrow> payloads w' = payloads w"
  by (simp add: payloads_def)

lemma payloads_resume [simp]: "payloads (resume k w) = payloads w"
  by (cases k) (simp_all add: resume_def process_exit_def payloads_def emit_def deliveries_append)

lemma payloads_fetch [simp]: "payloads (fetch b k w) = payloads w @ [b]"
  by (simp add: fetch_def payloads_def emit_def deliveries_append)

lemma payloads_flush:
  "payloads (flush k w) = payloads w @ (if batch w = [] then [] else [batch w])"
  by (auto simp: flush_empty flush_nonempty clearTimeout_def payloads_def [of "_\<lparr>timer := _\<rparr>"]
      payloads_def [of "_\<lparr>batch := _\<rparr>"] payloads_def [of w] split: option.splits)

lemma batch_flush [simp]: "batch (flush k w) = []"
  by (cases "batch w = []") (simp_all add: flush_empty flush_nonempty_fields)

lemma resetTimer_fields [simp]:
  "batch (resetTimer w) = batch w"
  "payloads (resetTimer w) = payloads w"
  "inflight (resetTimer w) = inflight w"
  "batchSize (resetTimer w) = batchSize w"
  "timeout (resetTimer w) = timeout w"
  "now (resetTimer w) = now w"
  "exited (resetTimer w) = exited w"
  by (simp_all add: resetTimer_def Let_def setTimeout_def clearTimeout_def payloads_def
      split: option.splits)

lemma payloads_connect [simp]: "payloads (connect w) = payloads w"
  by (simp add: connect_def Let_def payloads_def emit_def deliveries_append)

lemma payloads_settle [simp]: "payloads (settle r out w) = payloads w"
proof -
  have "payloads w' = payloads v" if "flush_settled b out v = Inr w'" for b v w'
    using that
    by (auto simp: flush_settled_def try_block_def catch_block_def Let_def emit_def payloads_def
        deliveries_append split: sum.splits fetch_outcome.splits if_splits)
  moreover have "payloads (process_exit c v) = payloads v" for c v
    by (simp add: process_exit_def emit_def payloads_def deliveries_append)
  moreover have "payloads (w\<lparr>inflight := remove1 r (inflight w)\<rparr>) = payloads w"
    by (simp add: payloads_def)
  ultimately show ?thesis
    by (auto simp: settle_def Let_def split: sum.splits)
qed

lemma payloads_push [simp]: "payloads (w\<lparr>batch := b\<rparr>) = payloads w"
  by (simp add: payloads_def)

lemma payloads_timers [simp]: "payloads (w\<lparr>timers := b\<rparr>) = payloads w"
  by (simp add: payloads_def)

lemma fire_accounts:
  "payloads (fire s w) @ [batch (fire s w)] = payloads w @ [batch w] \<or>
   (batch w \<noteq> [] \<and> payloads (fire s w) = payloads w @ [batch w] \<and> batch (fire s w) = [])"
  by (cases "callback s") (auto simp: fire_def Let_def payloads_flush)

text \<open>One call that is not a settlement: the events delivered or pending are those of
  before, followed by the one added.\<close>

lemma exec_accounts:
  assumes "\<not> is_settle c"
  shows "\<exists>later. payloads (exec c w) = payloads w @ later \<and>
           concat later @ batch (exec c w) = batch w @ added [c]"
proof (cases c)
  case (Add cast)
  then show ?thesis
    by (auto simp: exec_def add_cases payloads_flush)
next
  case Flush
  then show ?thesis
    by (auto simp: exec_def payloads_flush)
next
  case (TimerFire h)
  then show ?thesis
    by (cases "find (\<lambda>s. handle s = h) (timers w)")
      (auto simp: exec_def fire_def Let_def payloads_flush split: callback.splits)
next
  case (Settle i out)
  then show ?thesis
    using assms by (simp add: is_settle_def)
qed

lemma exec_all_accounts:
  assumes "\<forall>c\<in>set cs. \<not> is_settle c"
  shows "\<exists>later. payloads (exec_all cs w) = payloads w @ later \<and>
           concat later @ batch (exec_all cs w) = batch w @ added cs"
  using assms
proof (induction cs arbitrary: w)
  case Nil
  then show ?case by simp
next
  case (Cons c cs)
  obtain l1 where 1: "payloads (exec c w) = payloads w @ l1"
      "concat l1 @ batch (exec c w) = batch w @ added [c]"
    using exec_accounts [of c w] Cons.prems by auto
  obtain l2 where 2: "payloads (exec_all cs (exec c w)) = payloads (exec c w) @ l2"
      "concat l2 @ batch (exec_all cs (exec c w)) = batch (exec c w) @ added cs"
    using Cons.IH [of "exec c w"] Cons.prems by auto
  have a: "added (c # cs) = added [c] @ added cs"
    by (cases c) simp_all
  have "concat (l1 @ l2) @ batch (exec_all cs (exec c w)) = batch w @ added (c # cs)"
    using 1(2) 2(2) a by (metis append.assoc concat_append)
  then show ?case
    using 1(1) 2(1) by (intro exI [of _ "l1 @ l2"]) simp
qed


lemma inflight_flush: "set (inflight w) \<subseteq> set (inflight (flush k w))"
  by (cases "batch w = []") (auto simp: flush_empty flush_nonempty clearTimeout_def split: option.splits)

lemma inflight_exec:
  "\<not> is_settle c \<Longrightarrow> set (inflight w) \<subseteq> set (inflight (exec c w))"
  using inflight_flush [of "w\<lparr>batch := batch w @ [cast]\<rparr>" Nobody for cast]
    inflight_flush [of "w\<lparr>timers := remove1 s (timers w)\<rparr>" Nobody for s]
    inflight_flush [of w Nobody]
  by (cases c) (auto simp: exec_def add_cases is_settle_def fire_def Let_def
      split: option.splits callback.splits)

lemma inflight_exec_all:
  "\<forall>c\<in>set cs. \<not> is_settle c \<Longrightarrow> set (inflight w) \<subseteq> set (inflight (exec_all cs w))"
proof (induction cs arbitrary: w)
  case Nil
  then show ?case by simp
next
  case (Cons c cs)
  then show ?case
    using inflight_exec [of c w] by fastforce
qed

lemma idle_timers_resetTimer: "batch w \<noteq> [] \<Longrightarrow> idle_timers (resetTimer w) \<noteq> []"
  by (simp add: resetTimer_def Let_def setTimeout_def clearTimeout_def idle_timers_def
      split: option.splits)

lemma armed_exec:
  assumes "\<not> is_settle c" and "batch w \<noteq> [] \<longrightarrow> idle_timers w \<noteq> []"
  shows "batch (exec c w) \<noteq> [] \<longrightarrow> idle_timers (exec c w) \<noteq> []"
proof (cases c)
  case (Add cast)
  then show ?thesis
    by (simp add: exec_def add_cases idle_timers_resetTimer)
next
  case Flush
  then show ?thesis
    by (simp add: exec_def)
next
  case (TimerFire h)
  show ?thesis
  proof (cases "find (\<lambda>s. handle s = h) (timers w)")
    case None
    then show ?thesis
      using TimerFire assms(2) by (simp add: exec_def)
  next
    case (Some s)
    show ?thesis
    proof (cases "callback s")
      case FlushCallback
      then show ?thesis
        using TimerFire Some by (simp add: exec_def fire_def Let_def)
    next
      case ResolveDelay
      then have "s \<notin> set (idle_timers w)"
        by (simp add: idle_timers_def)
      then have "idle_timers (w\<lparr>timers := remove1 s (timers w)\<rparr>) = idle_timers w"
        by (simp add: idle_timers_def filter_remove1 remove1_idem)
      then show ?thesis
        using TimerFire Some ResolveDelay assms(2)
          idle_timers_cong [of "connect (w\<lparr>timers := remove1 s (timers w)\<rparr>)"
            "w\<lparr>timers := remove1 s (timers w)\<rparr>"]
        by (simp add: exec_def fire_def Let_def)
    qed
  qed
next
  case (Settle i out)
  then show ?thesis
    using assms(1) by (simp add: is_settle_def)
qed

lemma armed_exec_all:
  assumes "\<forall>c\<in>set cs. \<not> is_settle c" and "batch w \<noteq> [] \<longrightarrow> idle_timers w \<noteq> []"
  shows "batch (exec_all cs w) \<noteq> [] \<longrightarrow> idle_timers (exec_all cs w) \<noteq> []"
  using assms
proof (induction cs arbitrary: w)
  case Nil
  then show ?case by simp
next
  case (Cons c cs)
  then show ?case
    using armed_exec [of c w] by simp
qed

lemma payloads_fire_idle:
  "s \<in> set (idle_timers w) \<Longrightarrow> batch w \<noteq> [] \<Longrightarrow>
   payloads (fire s w) = payloads w @ [batch w] \<and> batch (fire s w) = []"
  by (simp add: idle_timers_def fire_def Let_def payloads_flush)

text \<open>
  C1. A flush of a non-empty pending batch leaves an empty pending batch behind and has
  issued one delivery call, whose payload is the batch swapped out, by the time control
  returns to the event loop. Whatever is called while that call is in flight (any
  sequence of \<^verbatim>\<open>add\<close>, \<^verbatim>\<open>flush\<close> and timer firings, no fetch settling), the request in
  flight keeps its payload, and the delivery calls made after it, followed by the
  pending batch, are exactly the events added since, in order: none is missing, none is
  there twice, none was put into the call in flight. What is still pending has a live
  idle timer, and that timer's firing sends exactly the pending batch. A flush of an
  empty pending batch changes nothing and makes no call.
\<close>

theorem flush_swaps_before_sending:
  assumes "\<forall>c\<in>set cs. \<not> is_settle c"
  shows "(batch w = [] \<longrightarrow> flush Nobody w = w) \<and>
         (batch w \<noteq> [] \<longrightarrow>
            batch (flush k w) = [] \<and>
            payloads (flush k w) = payloads w @ [batch w] \<and>
            inflight (flush k w) = inflight w @ [\<lparr>req = next_req w, body = batch w, waiter = k\<rparr>] \<and>
            \<lparr>req = next_req w, body = batch w, waiter = k\<rparr>
              \<in> set (inflight (exec_all cs (flush k w))) \<and>
            (\<exists>later. payloads (exec_all cs (flush k w)) = payloads w @ [batch w] @ later \<and>
                     concat later @ batch (exec_all cs (flush k w)) = added cs) \<and>
            (batch (exec_all cs (flush k w)) \<noteq> [] \<longrightarrow>
               idle_timers (exec_all cs (flush k w)) \<noteq> [] \<and>
               (\<forall>s\<in>set (idle_timers (exec_all cs (flush k w))).
                  payloads (fire s (exec_all cs (flush k w)))
                    = payloads (exec_all cs (flush k w)) @ [batch (exec_all cs (flush k w))])))"
proof (intro conjI impI)
  assume "batch w = []"
  then show "flush Nobody w = w"
    by (simp add: flush_empty resume_def)
next
  assume ne: "batch w \<noteq> []"
  let ?w1 = "flush k w" and ?r = "\<lparr>req = next_req w, body = batch w, waiter = k\<rparr>"
  show "batch ?w1 = []"
    by simp
  show p: "payloads ?w1 = payloads w @ [batch w]"
    using ne by (simp add: payloads_flush)
  show i: "inflight ?w1 = inflight w @ [?r]"
    using ne by (simp add: flush_nonempty clearTimeout_def split: option.splits)
  show "?r \<in> set (inflight (exec_all cs ?w1))"
    using inflight_exec_all [OF assms, of ?w1] i by auto
  show "\<exists>later. payloads (exec_all cs ?w1) = payloads w @ [batch w] @ later \<and>
          concat later @ batch (exec_all cs ?w1) = added cs"
    using exec_all_accounts [OF assms, of ?w1] p by simp
next
  assume "batch w \<noteq> []" and "batch (exec_all cs (flush k w)) \<noteq> []"
  then show "idle_timers (exec_all cs (flush k w)) \<noteq> []"
    using armed_exec_all [OF assms, of "flush k w"] by simp
next
  assume "batch w \<noteq> []" and "batch (exec_all cs (flush k w)) \<noteq> []"
  then show "\<forall>s\<in>set (idle_timers (exec_all cs (flush k w))).
      payloads (fire s (exec_all cs (flush k w)))
        = payloads (exec_all cs (flush k w)) @ [batch (exec_all cs (flush k w))]"
    by (simp add: payloads_fire_idle)
qed

theorem flush_swaps_before_sending_witness:
  "\<exists>later.
     payloads (exec_all [Add (cast_n 7), TimerFire 0, Add (cast_n 8)]
                 (flush Nobody (started\<lparr>batch := casts_upto 3\<rparr>)))
       = [casts_upto 3] @ later \<and>
     concat later @ batch (exec_all [Add (cast_n 7), TimerFire 0, Add (cast_n 8)]
                             (flush Nobody (started\<lparr>batch := casts_upto 3\<rparr>)))
       = [cast_n 7, cast_n 8]"
  using flush_swaps_before_sending
    [of "[Add (cast_n 7), TimerFire 0, Add (cast_n 8)]" "started\<lparr>batch := casts_upto 3\<rparr>" Nobody]
  by (simp add: is_settle_def started_fields casts_upto_def)

subsection \<open>A failed delivery\<close>

lemma flush_settled_failed:
  "failed out \<Longrightarrow> \<exists>err. flush_settled sent out w = Inr (catch_block sent err w)"
  by (cases out) (auto simp: failed_def flush_settled_def try_block_def ok_def)

lemma catch_block_fields:
  "batch (catch_block sent err w) = take 10 sent @ batch w"
  "timers (catch_block sent err w) = timers w"
  "timer (catch_block sent err w) = timer w"
  "inflight (catch_block sent err w) = inflight w"
  "exited (catch_block sent err w) = exited w"
  by (simp_all add: catch_block_def emit_def Let_def)

text \<open>
  C2. When the delivery attempt of a flush fails (the fetch is rejected or answers with
  a status that is not 2xx), the first 10 events of the sent batch, min(n, 10) of them
  and in their order, are put in front of whatever the pending batch holds by then, and
  nothing else is: the events after the tenth are in no state of the batcher any more,
  the request being gone from the calls in flight. The promise of \<^verbatim>\<open>flush\<close> is
  fulfilled, not rejected, so the failure reaches no caller: the process goes on, or
  exits with status 0 when it was the SIGINT handler that awaited the flush.
\<close>

theorem failed_flush_requeues_first_ten:
  assumes "failed out"
  shows "(\<exists>w'. flush_settled (body r) out w = Inr w') \<and>
         batch (settle r out w) = take 10 (body r) @ batch w \<and>
         length (take 10 (body r)) = min (length (body r)) 10 \<and>
         inflight (settle r out w) = remove1 r (inflight w) \<and>
         exited (settle r out w) =
           (case waiter r of Nobody \<Rightarrow> exited w | SigintHandler \<Rightarrow> Some 0)"
proof -
  let ?w1 = "w\<lparr>inflight := remove1 r (inflight w)\<rparr>"
  obtain err where e: "flush_settled (body r) out ?w1 = Inr (catch_block (body r) err ?w1)"
    using flush_settled_failed [OF assms] by blast
  have "\<exists>w'. flush_settled (body r) out w = Inr w'"
    using flush_settled_failed [OF assms] by blast
  moreover have "settle r out w = resume (waiter r) (catch_block (body r) err ?w1)"
    using e by (simp add: settle_def Let_def)
  ultimately show ?thesis
    by (cases "waiter r")
      (simp_all add: resume_def process_exit_def emit_def catch_block_fields min_def)
qed

theorem failed_flush_requeues_first_ten_witness:
  "failed (Status 500) \<and>
   batch (settle \<lparr>req = 0, body = casts_upto 12, waiter = Nobody\<rparr> (Status 500)
            (started\<lparr>batch := [cast_n 40]\<rparr>))
     = casts_upto 10 @ [cast_n 40]"
proof -
  have f: "failed (Status 500)"
    by (simp add: failed_def)
  have "take 10 (casts_upto 12) = casts_upto 10"
    by (simp add: casts_upto_def take_map)
  then show ?thesis
    using f failed_flush_requeues_first_ten
      [OF f, of "\<lparr>req = 0, body = casts_upto 12, waiter = Nobody\<rparr>"
        "started\<lparr>batch := [cast_n 40]\<rparr>"]
    by simp
qed

subsection \<open>The size threshold\<close>

lemma payloads_calls: "payloads w = map snd (calls w)"
  by (simp add: payloads_def calls_def)

lemma calls_resume [simp]: "calls (resume k w) = calls w"
  by (cases k) (simp_all add: resume_def process_exit_def calls_def emit_def deliveries_append)

lemma calls_flush:
  "calls (flush k w) = calls w @ (if batch w = [] then [] else [(now w, batch w)])"
proof (cases "batch w = []")
  case True
  then show ?thesis by (simp add: flush_empty)
next
  case False
  then show ?thesis
    by (simp add: flush_nonempty clearTimeout_def fetch_def emit_def calls_def
        deliveries_append split: option.splits)
qed

lemma calls_resetTimer [simp]: "calls (resetTimer w) = calls w"
  by (simp add: resetTimer_def Let_def setTimeout_def clearTimeout_def calls_def
      split: option.splits)

lemma calls_connect [simp]: "calls (connect w) = calls w"
  by (simp add: connect_def Let_def calls_def emit_def deliveries_append)

lemma calls_update [simp]:
  "calls (w\<lparr>batch := b\<rparr>) = calls w"
  "calls (w\<lparr>timers := ts\<rparr>) = calls w"
  "calls (w\<lparr>now := t\<rparr>) = calls w"
  by (simp_all add: calls_def)

lemma exec_all_append: "exec_all (cs @ ds) w = exec_all ds (exec_all cs w)"
  by (induction cs arbitrary: w) simp_all

lemma flush_fields [simp]:
  "batchSize (flush k w) = batchSize w"
  "timeout (flush k w) = timeout w"
  "now (flush k w) = now w"
  "timer (flush Nobody w) = (if batch w = [] then timer w else None)"
proof -
  show "batchSize (flush k w) = batchSize w"
    by (cases "batch w = []") (simp_all add: flush_empty flush_nonempty_fields)
  show  "timeout (flush k w) = timeout w"
    by (cases "batch w = []") (simp_all add: flush_empty flush_nonempty_fields)
  show "now (flush k w) = now w"
    by (cases "batch w = []") (simp_all add: flush_empty flush_nonempty_fields)
  show "timer (flush Nobody w) = (if batch w = [] then timer w else None)"
    by (cases "batch w = []") (simp_all add: flush_empty flush_nonempty_fields)
qed

lemma timer_resetTimer:
  "batch w \<noteq> [] \<Longrightarrow> timer (resetTimer w) = Some (next_handle w)"
  by (simp add: resetTimer_def Let_def setTimeout_def clearTimeout_def split: option.splits)

text \<open>Adds that stay below the size threshold only collect.\<close>

lemma adds_below:
  assumes "length (batch w) + length es < batchSize w"
  shows "batch (exec_all (map Add es) w) = batch w @ es \<and>
         calls (exec_all (map Add es) w) = calls w \<and>
         batchSize (exec_all (map Add es) w) = batchSize w \<and>
         now (exec_all (map Add es) w) = now w"
  using assms
proof (induction es arbitrary: w)
  case Nil
  then show ?case by simp
next
  case (Cons e es)
  let ?w1 = "exec (Add e) w"
  have 1: "?w1 = resetTimer (w\<lparr>batch := batch w @ [e]\<rparr>)"
    using Cons.prems by (simp add: exec_def add_cases)
  then have "length (batch ?w1) + length es < batchSize ?w1"
    using Cons.prems by simp
  then show ?case
    using Cons.IH [of ?w1] 1 by simp
qed

text \<open>
  C3. From an empty pending batch, adding as many events as the size threshold (20 by
  default) one right after the other, with no timer firing and no fetch settling in
  between, makes exactly one delivery call: none before the last add, and the last add
  makes one whose payload is exactly the events added. The pending batch is empty when
  that add returns, and no idle timer is left.
\<close>

theorem size_triggered_flush:
  assumes "batch w = []" and "0 < batchSize w" and "length es = batchSize w"
  shows "calls (exec_all (map Add es) w) = calls w @ [(now w, es)] \<and>
         payloads (exec_all (map Add es) w) = payloads w @ [es] \<and>
         batch (exec_all (map Add es) w) = [] \<and>
         calls (exec_all (map Add (butlast es)) w) = calls w \<and>
         (idle_timers w = [] \<longrightarrow> idle_timers (exec_all (map Add es) w) = [])"
proof -
  have ne: "es \<noteq> []"
    using assms(2,3) by auto
  let ?w1 = "exec_all (map Add (butlast es)) w"
  have below: "length (batch w) + length (butlast es) < batchSize w"
    using assms ne by simp
  have 1: "batch ?w1 = butlast es" "calls ?w1 = calls w" "batchSize ?w1 = batchSize w"
      "now ?w1 = now w"
    using adds_below [OF below] assms(1) by simp_all
  have "exec_all (map Add (butlast es @ [last es])) w = flush Nobody (?w1\<lparr>batch := es\<rparr>)"
    using 1 assms(3) ne unfolding map_append exec_all_append
    by (simp add: exec_def add_cases)
  then have 2: "exec_all (map Add es) w = flush Nobody (?w1\<lparr>batch := es\<rparr>)"
    using ne by simp
  have 3: "calls (exec_all (map Add es) w) = calls w @ [(now w, es)]"
    using 1 ne by (simp add: 2 calls_flush)
  have "batcher_inv (exec_all (map Add es) w)" if "idle_timers w = []"
    using that inv_exec_all [OF inv_no_idle] by simp
  moreover have "batch (exec_all (map Add es) w) = []"
    by (simp add: 2)
  ultimately have 4: "idle_timers w = [] \<longrightarrow> idle_timers (exec_all (map Add es) w) = []"
    by (auto simp: batcher_inv_iff)
  show ?thesis
    using 3 4 1(2) by (simp add: 2 payloads_calls)
qed

lemma length_casts_upto [simp]: "length (casts_upto n) = n"
  by (simp add: casts_upto_def)

theorem size_triggered_flush_witness:
  "calls (exec_all (map Add (casts_upto 20)) started) = [(0, casts_upto 20)] \<and>
   batch (exec_all (map Add (casts_upto 20)) started) = [] \<and>
   calls (exec_all (map Add (butlast (casts_upto 20))) started) = []"
proof -
  have "calls started = []"
    by (simp add: calls_def started_def main_def sample_env_def falsy_def boot_def
        startStream_def connect_def emit_def Let_def)
  then show ?thesis
    using size_triggered_flush [of started "casts_upto 20"]
    by (simp add: started_fields)
qed

subsection \<open>After a failed delivery\<close>

lemma calls_inflight [simp]: "calls (w\<lparr>inflight := rs\<rparr>) = calls w"
  by (simp add: calls_def)

lemma settle_cases:
  "settle r out w =
     resume (waiter r)
       (case try_block (body r) out (w\<lparr>inflight := remove1 r (inflight w)\<rparr>) of
          Inr w' \<Rightarrow> w'
        | Inl err \<Rightarrow> catch_block (body r) err (w\<lparr>inflight := remove1 r (inflight w)\<rparr>))"
  by (simp add: settle_def flush_settled_def Let_def split: sum.splits)

lemma try_block_fields:
  assumes "try_block b out v = Inr v'"
  shows "timers v' = timers v" and "timer v' = timer v" and "batch v' = batch v"
    and "calls v' = calls v" and "\<not> failed out"
  using assms
  by (auto simp: try_block_def emit_def calls_def deliveries_append failed_def ok_def
      split: fetch_outcome.splits if_splits)

lemma settle_fields:
  "timers (settle r out w) = timers w"
  "timer (settle r out w) = timer w"
  "calls (settle r out w) = calls w"
  "\<exists>pre. batch (settle r out w) = pre @ batch w"
proof -
  let ?w1 = "w\<lparr>inflight := remove1 r (inflight w)\<rparr>"
  have c: "calls (catch_block b err v) = calls v" for b err v
    by (simp add: catch_block_def Let_def emit_def calls_def deliveries_append)
  have "timers (settle r out w) = timers w \<and> timer (settle r out w) = timer w \<and>
        calls (settle r out w) = calls w \<and> (\<exists>pre. batch (settle r out w) = pre @ batch w)"
  proof (cases "try_block (body r) out ?w1")
    case (Inl err)
    then show ?thesis
      by (simp add: settle_cases catch_block_fields c)
  next
    case (Inr v)
    have "timers v = timers w" "timer v = timer w" "batch v = batch w" "calls v = calls w"
      using try_block_fields(1-4) [OF Inr] by simp_all
    then show ?thesis
      by (simp add: settle_cases Inr)
  qed
  then show "timers (settle r out w) = timers w" "timer (settle r out w) = timer w"
    "calls (settle r out w) = calls w" "\<exists>pre. batch (settle r out w) = pre @ batch w"
    by blast+
qed

lemma batch_settle_failed:
  assumes "failed out"
  shows "batch (settle r out w) = take 10 (body r) @ batch w"
proof -
  let ?w1 = "w\<lparr>inflight := remove1 r (inflight w)\<rparr>"
  obtain err where "try_block (body r) out ?w1 = Inl err"
    using assms try_block_fields(5) [of "body r" out ?w1]
    by (cases "try_block (body r) out ?w1") auto
  then show ?thesis
    by (simp add: settle_cases catch_block_fields)
qed

lemma find_mem: "find P xs = Some x \<Longrightarrow> x \<in> set xs \<and> P x"
  by (induction xs) (auto split: if_splits)

text \<open>With no idle timer live, what the event loop does on its own makes no delivery
  call, arms no idle timer and takes nothing out of the pending batch.\<close>

lemma loop_event_exec:
  assumes "is_loop_event c" and "idle_timers w = []"
  shows "calls (exec c w) = calls w \<and> idle_timers (exec c w) = [] \<and>
         (\<exists>pre. batch (exec c w) = pre @ batch w)"
proof (cases c)
  case (Add cast)
  then show ?thesis using assms(1) by (simp add: is_loop_event_def)
next
  case Flush
  then show ?thesis using assms(1) by (simp add: is_loop_event_def)
next
  case (TimerFire h)
  show ?thesis
  proof (cases "find (\<lambda>s. handle s = h) (timers w)")
    case None
    then show ?thesis using TimerFire assms(2) by (simp add: exec_def)
  next
    case (Some s)
    then have "s \<in> set (timers w)"
      using find_mem [OF Some] by simp
    then have cb: "callback s = ResolveDelay"
      using assms(2) by (cases "callback s") (auto simp: idle_timers_def filter_empty_conv)
    let ?w1 = "w\<lparr>timers := remove1 s (timers w)\<rparr>"
    have "idle_timers ?w1 = []"
      using assms(2) by (simp add: idle_timers_def filter_remove1)
    then have "idle_timers (connect ?w1) = []"
      using idle_timers_cong [of "connect ?w1" ?w1] by simp
    then show ?thesis
      using TimerFire Some cb by (simp add: exec_def fire_def Let_def)
  qed
next
  case (Settle i out)
  show ?thesis
  proof (cases "find (\<lambda>r. req r = i) (inflight w)")
    case None
    then show ?thesis using Settle assms(2) by (simp add: exec_def)
  next
    case (Some r)
    have "idle_timers (settle r out w) = []"
      using idle_timers_cong [OF settle_fields(1), of r out w] assms(2) by simp
    moreover have "exec c w = settle r out w"
      using Settle Some by (simp add: exec_def)
    ultimately show ?thesis
      using settle_fields(3,4) [of r out w] by simp
  qed
qed

lemma loop_events_exec_all:
  assumes "\<forall>c\<in>set cs. is_loop_event c" and "idle_timers w = []"
  shows "calls (exec_all cs w) = calls w \<and> idle_timers (exec_all cs w) = [] \<and>
         (\<exists>pre. batch (exec_all cs w) = pre @ batch w)"
  using assms
proof (induction cs arbitrary: w)
  case Nil
  then show ?case by simp
next
  case (Cons c cs)
  have 1: "calls (exec c w) = calls w" "idle_timers (exec c w) = []"
    using loop_event_exec [of c w] Cons.prems by simp_all
  obtain p1 where p1: "batch (exec c w) = p1 @ batch w"
    using loop_event_exec [of c w] Cons.prems by auto
  have 2: "calls (exec_all cs (exec c w)) = calls (exec c w)"
      "idle_timers (exec_all cs (exec c w)) = []"
    using Cons.IH [OF _ 1(2)] Cons.prems(1) by simp_all
  obtain p2 where p2: "batch (exec_all cs (exec c w)) = p2 @ batch (exec c w)"
    using Cons.IH [OF _ 1(2)] Cons.prems(1) by auto
  have "batch (exec_all cs (exec c w)) = (p2 @ p1) @ batch w"
    by (simp add: p1 p2)
  then have "\<exists>pre. batch (exec_all (c # cs) w) = pre @ batch w"
    unfolding exec_all.simps by (rule exI)
  moreover have "calls (exec_all (c # cs) w) = calls w"
    by (simp add: 1(1) 2(1))
  moreover have "idle_timers (exec_all (c # cs) w) = []"
    by (simp add: 2(2))
  ultimately show ?case
    by (intro conjI)
qed

text \<open>
  C10. When the delivery attempt of a flush fails, the rest of \<^verbatim>\<open>flush\<close> puts the
  survivors back and arms no timer: the scheduled timeouts and the batcher's \<^verbatim>\<open>timer\<close>
  field are as before. If no idle timer is live at that moment (no \<^verbatim>\<open>add\<close> armed one
  while the call was in flight), then whatever the event loop does on its own afterwards
  (timeouts firing, fetches settling; no \<^verbatim>\<open>add\<close> and no call of \<^verbatim>\<open>flush\<close>, which only
  \<^verbatim>\<open>add\<close> and the SIGINT handler make), no delivery call is ever made, no idle timer
  is ever live, and the survivors stay in the pending batch, which is not empty.
\<close>

theorem survivors_wait_for_an_add:
  assumes "failed out" and "body r \<noteq> []" and "idle_timers w = []"
    and "\<forall>c\<in>set cs. is_loop_event c"
  shows "timers (settle r out w) = timers w \<and>
         timer (settle r out w) = timer w \<and>
         batch (settle r out w) = take 10 (body r) @ batch w \<and>
         calls (exec_all cs (settle r out w)) = calls w \<and>
         idle_timers (exec_all cs (settle r out w)) = [] \<and>
         (\<exists>pre. batch (exec_all cs (settle r out w)) = pre @ take 10 (body r) @ batch w) \<and>
         batch (exec_all cs (settle r out w)) \<noteq> []"
proof -
  let ?w1 = "settle r out w"
  have b: "batch ?w1 = take 10 (body r) @ batch w"
    using batch_settle_failed [OF assms(1)] by simp
  have i: "idle_timers ?w1 = []"
    using idle_timers_cong [OF settle_fields(1), of r out w] assms(3) by simp
  obtain pre where pre: "batch (exec_all cs ?w1) = pre @ batch ?w1"
    using loop_events_exec_all [OF assms(4) i] by auto
  have ne: "take 10 (body r) \<noteq> []"
    using assms(2) by (cases "body r") simp_all
  have e: "batch (exec_all cs ?w1) = pre @ take 10 (body r) @ batch w"
    by (simp add: pre b)
  have "calls (exec_all cs ?w1) = calls w"
    using loop_events_exec_all [OF assms(4) i] by (simp add: settle_fields(3))
  moreover have "idle_timers (exec_all cs ?w1) = []"
    using loop_events_exec_all [OF assms(4) i] by (rule conjunct1 [OF conjunct2])
  moreover have "\<exists>pre. batch (exec_all cs ?w1) = pre @ take 10 (body r) @ batch w"
    using e by (rule exI)
  moreover have "batch (exec_all cs ?w1) \<noteq> []"
    using ne by (simp add: e)
  ultimately show ?thesis
    using b settle_fields(1,2) [of r out w] by (intro conjI)
qed

lemma calls_started: "calls started = []"
  by (simp add: calls_def started_def main_def sample_env_def falsy_def boot_def
      startStream_def connect_def emit_def Let_def)

theorem survivors_wait_for_an_add_witness:
  "calls (exec_all [TimerFire 0, Settle 5 (Status 200)]
            (settle \<lparr>req = 0, body = casts_upto 12, waiter = Nobody\<rparr> Rejected started)) = [] \<and>
   batch (exec_all [TimerFire 0, Settle 5 (Status 200)]
            (settle \<lparr>req = 0, body = casts_upto 12, waiter = Nobody\<rparr> Rejected started)) \<noteq> []"
proof -
  have "casts_upto 12 \<noteq> []"
    by (simp add: casts_upto_def)
  then show ?thesis
    using survivors_wait_for_an_add
      [of Rejected "\<lparr>req = 0, body = casts_upto 12, waiter = Nobody\<rparr>" started
        "[TimerFire 0, Settle 5 (Status 200)]"]
    by (simp add: failed_def is_loop_event_def started_fields calls_started)
qed

subsection \<open>Startup, shutdown, and who waits for a flush\<close>

lemma run_exited: "exited w \<noteq> None \<Longrightarrow> run evs w = w"
  by (induction evs) (simp_all add: step_def)

lemma main_without_key:
  assumes "falsy (env ''NEYNAR_API_KEY'')"
  shows "main env t = (boot env t)\<lparr>trace := [(t, ConsoleError KeyRequired), (t, ProcessExit 1)],
                                   exited := Some 1\<rparr>"
  using assms by (simp add: main_def Let_def process_exit_def emit_def boot_def)

text \<open>
  C8. When the environment holds no (or an empty) \<^verbatim>\<open>NEYNAR_API_KEY\<close> at startup, the
  process exits with status 1 at once: its whole trace is the error message and the
  exit, no client was created, and whatever events arrive afterwards change nothing, so
  the run has no connect, no subscribe and no delivery call.
\<close>

theorem missing_key_exits_before_connecting:
  assumes "falsy (env ''NEYNAR_API_KEY'')"
  shows "exited (main env t) = Some 1 \<and>
         run evs (main env t) = main env t \<and>
         trace (run evs (main env t)) = [(t, ConsoleError KeyRequired), (t, ProcessExit 1)] \<and>
         clients (run evs (main env t)) = 0 \<and>
         open_clients (run evs (main env t)) = [] \<and>
         calls (run evs (main env t)) = []"
proof -
  have e: "exited (main env t) = Some 1"
    using main_without_key [of env t] assms by simp
  then have r: "run evs (main env t) = main env t"
    by (simp add: run_exited)
  show ?thesis
    unfolding r using main_without_key [of env t] assms by (simp add: boot_def calls_def)
qed

theorem missing_key_exits_before_connecting_witness:
  "falsy (Map.empty ''NEYNAR_API_KEY'') \<and>
   exited (main Map.empty 0) = Some 1 \<and>
   trace (run [Ready False, Subscribed IsOk, Sigint] (main Map.empty 0))
     = [(0, ConsoleError KeyRequired), (0, ProcessExit 1)]"
proof -
  have f: "falsy (Map.empty ''NEYNAR_API_KEY'')"
    by (simp add: falsy_def)
  show ?thesis
    using f missing_key_exits_before_connecting
      [of Map.empty 0 "[Ready False, Subscribed IsOk, Sigint]"]
    by blast
qed

lemma emit_fields [simp]:
  "batch (emit e w) = batch w"
  "timer (emit e w) = timer w"
  "timers (emit e w) = timers w"
  "inflight (emit e w) = inflight w"
  "next_req (emit e w) = next_req w"
  "now (emit e w) = now w"
  "exited (emit e w) = exited w"
  "idle_timers (emit e w) = idle_timers w"
  by (simp_all add: emit_def idle_timers_def)

lemma calls_emit_log [simp]:
  "calls (emit (ConsoleLog m) w) = calls w"
  "calls (emit (ConsoleError m) w) = calls w"
  "calls (emit (ProcessExit c) w) = calls w"
  by (simp_all add: emit_def calls_def deliveries_append)

lemma flush_nonempty_more:
  assumes "batch w \<noteq> []"
  shows "inflight (flush k w) = inflight w @ [\<lparr>req = next_req w, body = batch w, waiter = k\<rparr>]"
    and "exited (flush k w) = exited w"
    and "calls (flush k w) = calls w @ [(now w, batch w)]"
proof -
  show "inflight (flush k w) = inflight w @ [\<lparr>req = next_req w, body = batch w, waiter = k\<rparr>]"
    using assms by (simp add: flush_nonempty clearTimeout_def split: option.splits)
  show "exited (flush k w) = exited w"
    using assms by (simp add: flush_nonempty_fields)
  show "calls (flush k w) = calls w @ [(now w, batch w)]"
    using assms by (simp add: calls_flush)
qed

lemma find_append:
  "find P (xs @ ys) = (case find P xs of None \<Rightarrow> find P ys | Some x \<Rightarrow> Some x)"
  by (induction xs) simp_all

lemma resetTimer_more [simp]:
  "next_req (resetTimer w) = next_req w"
  by (simp add: resetTimer_def Let_def setTimeout_def clearTimeout_def split: option.splits)

lemma adds_below_rest:
  assumes "length (batch w) + length es < batchSize w"
  shows "inflight (exec_all (map Add es) w) = inflight w \<and>
         next_req (exec_all (map Add es) w) = next_req w \<and>
         exited (exec_all (map Add es) w) = exited w"
  using assms
proof (induction es arbitrary: w)
  case Nil
  then show ?case by simp
next
  case (Cons e es)
  let ?w1 = "exec (Add e) w"
  have 1: "?w1 = resetTimer (w\<lparr>batch := batch w @ [e]\<rparr>)"
    using Cons.prems by (simp add: exec_def add_cases)
  then have "length (batch ?w1) + length es < batchSize ?w1"
    using Cons.prems by simp
  then show ?case
    using Cons.IH [of ?w1] 1 by simp
qed














text \<open>
  C9, as the code has it. When an \<^verbatim>\<open>add\<close> brings the pending batch to the size
  threshold, the flush it triggers issues the delivery call before \<^verbatim>\<open>add\<close> returns, and
  nothing awaits it: \<^verbatim>\<open>add\<close> returns with the pending batch empty, the call in flight
  and the process as it was, and the handling of success or failure runs later, when the
  call settles. A flush triggered by the timer is not waited on either; only the SIGINT
  handler awaits its flush.
\<close>

theorem add_starts_delivery_without_waiting:
  assumes "batchSize w \<le> Suc (length (batch w))"
  shows "inflight (add cast w)
           = inflight w @ [\<lparr>req = next_req w, body = batch w @ [cast], waiter = Nobody\<rparr>] \<and>
         calls (add cast w) = calls w @ [(now w, batch w @ [cast])] \<and>
         batch (add cast w) = [] \<and>
         exited (add cast w) = exited w \<and>
         (callback s = FlushCallback \<and> batch w \<noteq> [] \<longrightarrow>
            inflight (fire s w)
              = inflight w @ [\<lparr>req = next_req w, body = batch w, waiter = Nobody\<rparr>]) \<and>
         (batch w \<noteq> [] \<longrightarrow>
            inflight (on_sigint w)
              = inflight w @ [\<lparr>req = next_req w, body = batch w, waiter = SigintHandler\<rparr>])"
proof -
  let ?v = "w\<lparr>batch := batch w @ [cast]\<rparr>"
  have a: "add cast w = flush Nobody ?v"
    using assms by (simp add: add_cases)
  have ne: "batch ?v \<noteq> []"
    by simp
  have "inflight (fire s w) = inflight w @ [\<lparr>req = next_req w, body = batch w, waiter = Nobody\<rparr>]"
    if "callback s = FlushCallback" "batch w \<noteq> []"
    using that flush_nonempty_more(1) [of "w\<lparr>timers := remove1 s (timers w)\<rparr>" Nobody]
    by (simp add: fire_def Let_def)
  moreover have "inflight (on_sigint w)
      = inflight w @ [\<lparr>req = next_req w, body = batch w, waiter = SigintHandler\<rparr>]"
    if "batch w \<noteq> []"
    using that flush_nonempty_more(1) [of "emit (ConsoleLog ShuttingDown) w" SigintHandler]
    by (simp add: on_sigint_def)
  ultimately show ?thesis
    using flush_nonempty_more [OF ne, of Nobody] by (simp add: a)
qed

theorem add_starts_delivery_without_waiting_witness:
  "inflight (add (cast_n 19) (exec_all (map Add (casts_upto 19)) started))
     = [\<lparr>req = 0, body = casts_upto 19 @ [cast_n 19], waiter = Nobody\<rparr>] \<and>
   batch (add (cast_n 19) (exec_all (map Add (casts_upto 19)) started)) = []"
  using add_starts_delivery_without_waiting
      [of "exec_all (map Add (casts_upto 19)) started" "cast_n 19"]
    adds_below [of started "casts_upto 19"] adds_below_rest [of started "casts_upto 19"]
  by (simp add: started_fields)

text \<open>
  The claim C9 at a concrete input: nineteen events are pending, the twentieth is added,
  and when \<^verbatim>\<open>add\<close> has returned the delivery call is in flight, awaited by nobody; its
  outcome has not been handled.
\<close>

theorem add_awaits_delivery_counterexample:
  "batchSize (exec_all (map Add (casts_upto 19)) started)
     \<le> Suc (length (batch (exec_all (map Add (casts_upto 19)) started))) \<and>
   inflight (exec_all (map Add (casts_upto 19)) started) = [] \<and>
   inflight (add (cast_n 19) (exec_all (map Add (casts_upto 19)) started))
     = [\<lparr>req = 0, body = casts_upto 19 @ [cast_n 19], waiter = Nobody\<rparr>] \<and>
   batch (add (cast_n 19) (exec_all (map Add (casts_upto 19)) started)) = [] \<and>
   batch (settle \<lparr>req = 0, body = casts_upto 19 @ [cast_n 19], waiter = Nobody\<rparr> Rejected
            (add (cast_n 19) (exec_all (map Add (casts_upto 19)) started)))
     = casts_upto 10"
proof -
  let ?w = "exec_all (map Add (casts_upto 19)) started"
  have t: "take 10 (casts_upto 19) = casts_upto 10"
    by (simp add: casts_upto_def take_map)
  have f: "failed Rejected"
    by (simp add: failed_def)
  have w: "batch ?w = casts_upto 19" "batchSize ?w = 20" "inflight ?w = []" "next_req ?w = 0"
    using adds_below [of started "casts_upto 19"] adds_below_rest [of started "casts_upto 19"]
    by (simp_all add: started_fields)
  have "add (cast_n 19) ?w = flush Nobody (?w\<lparr>batch := casts_upto 19 @ [cast_n 19]\<rparr>)"
    by (simp add: add_cases w)
  then show ?thesis
    using flush_nonempty_more(1) [of "?w\<lparr>batch := casts_upto 19 @ [cast_n 19]\<rparr>" Nobody]
    by (simp add: w t batch_settle_failed [OF f])
qed

subsection \<open>Errors of the connection loop\<close>

text \<open>Every error of the connection loop ends in the outer \<^verbatim>\<open>catch\<close>: it is logged, the
  process goes on, and the delay of ten seconds is scheduled; when the delay fires, the
  loop connects again. Nothing counts the attempts.\<close>

lemma outer_catch_retries:
  "exited (outer_catch err w) = exited w"
  "trace (outer_catch err w)
     = trace w @ [(now w, ConsoleError (ConnectionError err)), (now w, ConsoleLog Reconnecting)]"
  "timers (outer_catch err w)
     = timers w @ [\<lparr>handle = next_handle w, deadline = now w + 10000, callback = ResolveDelay\<rparr>]"
  "open_clients (outer_catch err w) = open_clients w"
  "phase (outer_catch err w) = Delaying"
  by (simp_all add: outer_catch_def Let_def setTimeout_def emit_def)

lemma delay_fires_connect:
  "callback s = ResolveDelay \<Longrightarrow> fire s w = connect (w\<lparr>timers := remove1 s (timers w)\<rparr>)"
  by (simp add: fire_def Let_def)

lemma errors_reach_outer_catch:
  "exited w = None \<Longrightarrow> phase w = Connecting c \<Longrightarrow>
     step (Ready True) w = outer_catch NotReady w"
  "exited w = None \<Longrightarrow> phase w = Subscribing c \<Longrightarrow>
     step (Subscribed IsErr) w = outer_catch FailedToSubscribe (close c w)"
  "exited w = None \<Longrightarrow> phase w = Subscribing c \<Longrightarrow>
     step (Subscribed Threw) w = outer_catch SubscribeThrew (close c w)"
  "exited w = None \<Longrightarrow> phase w = Streaming c n \<Longrightarrow>
     step StreamThrows w = outer_catch StreamFailed (close c w)"
  by (simp_all add: step_def on_ready_def on_subscribed_def on_stream_error_def)

lemma close_closes: "c \<notin> set (open_clients (close c w))"
  by (simp add: close_def emit_def)

lemma started_connection:
  "phase started = Connecting 0" "open_clients started = [0]" "clients started = 1"
  "trace started = [(0, ConsoleLog Starting),
                    (0, ConsoleLog (WorkerUrl ''https://your-worker.workers.dev'')),
                    (0, GetClient 0), (0, WaitForReady 0 10000)]"
  by (simp_all add: started_def main_def sample_env_def falsy_def boot_def startStream_def
      connect_def emit_def Let_def)

text \<open>
  C6 at a connection attempt that fails. The first client is created and
  \<^verbatim>\<open>waitForReady\<close> calls back with an error: the error is logged and the retry is
  scheduled ten seconds later, but no \<^verbatim>\<open>close\<close> is in the trace and client 0 stays
  open; after the retry two clients are open. When instead the subscription is
  rejected, or the stream raises, the client is closed.
\<close>

theorem connect_error_leaves_client_open:
  "trace (run [Ready True] started)
     = trace started @ [(0, ConsoleError (ConnectionError NotReady)), (0, ConsoleLog Reconnecting)] \<and>
   open_clients (run [Ready True] started) = [0] \<and>
   exited (run [Ready True] started) = None \<and>
   timers (run [Ready True] started)
     = [\<lparr>handle = 0, deadline = 10000, callback = ResolveDelay\<rparr>] \<and>
   open_clients (run [Ready True, Elapse 10000, TimerFires 0] started) = [0, 1] \<and>
   open_clients (run [Ready False, Subscribed IsErr] started) = [] \<and>
   open_clients (run [Ready False, Subscribed IsOk, StreamThrows] started) = []"
  by (simp add: step_def on_ready_def on_subscribed_def on_stream_error_def outer_catch_def
      close_def fire_def connect_def setTimeout_def emit_def Let_def started_fields
      started_connection)

subsection \<open>The idle timeout\<close>

lemma earliest_mem: "earliest ss = Some m \<Longrightarrow> m \<in> set ss"
  by (induction ss arbitrary: m) (auto split: option.splits if_splits)

lemma earliest_le: "earliest ss = Some m \<Longrightarrow> x \<in> set ss \<Longrightarrow> deadline m \<le> deadline x"
proof (induction ss arbitrary: m x)
  case Nil
  then show ?case by simp
next
  case (Cons a ss)
  show ?case
  proof (cases "earliest ss")
    case None
    then have "ss = []"
      by (cases ss) (auto split: option.splits if_splits)
    then show ?thesis
      using Cons.prems by simp
  next
    case (Some k)
    have k: "y \<in> set ss \<Longrightarrow> deadline k \<le> deadline y" for y
      using Cons.IH [OF Some] by simp
    show ?thesis
    proof (cases "deadline k < deadline a")
      case True
      then have "m = k"
        using Cons.prems(1) Some by simp
      then show ?thesis
        using Cons.prems(2) k True by auto
    next
      case False
      then have "m = a"
        using Cons.prems(1) Some by simp
      then show ?thesis
        using Cons.prems(2) k False by fastforce
    qed
  qed
qed

lemma earliest_None: "earliest ss = None \<Longrightarrow> ss = []"
  by (cases ss) (auto split: option.splits if_splits)

lemma fire_delay_same:
  assumes "callback s = ResolveDelay"
  shows "same_batcher (fire s w) w" and "now (fire s w) = now w"
proof -
  let ?w1 = "w\<lparr>timers := remove1 s (timers w)\<rparr>"
  have "s \<notin> set (idle_timers w)"
    using assms by (simp add: idle_timers_def)
  then have "idle_timers ?w1 = idle_timers w"
    by (simp add: idle_timers_def filter_remove1 remove1_idem)
  then have "idle_timers (connect ?w1) = idle_timers w"
    using idle_timers_cong [of "connect ?w1" ?w1] by simp
  then show "same_batcher (fire s w) w"
    using assms by (simp add: same_batcher_def fire_def Let_def)
  show "now (fire s w) = now w"
    using assms by (simp add: fire_def Let_def)
qed

lemma same_batcher_now [simp]: "same_batcher (w\<lparr>now := t\<rparr>) v = same_batcher w v"
  by (simp add: same_batcher_def idle_timers_def)

lemma same_batcher_now2 [simp]: "same_batcher w (v\<lparr>now := t\<rparr>) = same_batcher w v"
  by (simp add: same_batcher_def idle_timers_def)

lemma same_batcher_trans: "same_batcher a b \<Longrightarrow> same_batcher b c \<Longrightarrow> same_batcher a c"
  by (simp add: same_batcher_def)

lemma idle_timers_now [simp]: "idle_timers (w\<lparr>now := t\<rparr>) = idle_timers w"
  by (simp add: idle_timers_def)

text \<open>While no idle timer is due, time passes without touching the batcher.\<close>

lemma advance_quiet:
  "\<forall>s\<in>set (idle_timers w). t < deadline s \<Longrightarrow>
   same_batcher (advance_to t w) w \<and> now (advance_to t w) = max (now w) t"
proof (induction t w rule: advance_to.induct)
  case (1 t w)
  show ?case
  proof (cases "earliest (due t w)")
    case None
    then show ?thesis
      by (subst (1 2) advance_to.simps) (simp add: same_batcher_def)
  next
    case (Some s)
    let ?w1 = "fire s (w\<lparr>now := max (now w) (deadline s)\<rparr>)"
    have due: "s \<in> set (timers w)" "deadline s \<le> t"
      using earliest_mem [OF Some] by (simp_all add: due_def)
    have "s \<notin> set (idle_timers w)"
      using "1.prems" due(2) by auto
    then have cb: "callback s = ResolveDelay"
      using due(1) by (cases "callback s") (simp_all add: idle_timers_def)
    have same: "same_batcher ?w1 w"
      using fire_delay_same(1) [OF cb, of "w\<lparr>now := max (now w) (deadline s)\<rparr>"] by simp
    have now1: "now ?w1 = max (now w) (deadline s)"
      using fire_delay_same(2) [OF cb, of "w\<lparr>now := max (now w) (deadline s)\<rparr>"] by simp
    have "\<forall>s\<in>set (idle_timers ?w1). t < deadline s"
      using same "1.prems" by (simp add: same_batcher_def)
    then have ih: "same_batcher (advance_to t ?w1) ?w1" "now (advance_to t ?w1) = max (now ?w1) t"
      using "1.IH" [OF Some] by simp_all
    have unfold: "advance_to t w = advance_to t ?w1"
      by (subst advance_to.simps) (simp add: Some)
    show ?thesis
      using same_batcher_trans [OF ih(1) same] ih(2) now1 due(2) by (simp add: unfold)
  qed
qed

lemma calls_fire_idle:
  assumes "callback s = FlushCallback" and "batch w \<noteq> []" and "idle_timers w = [s]"
  shows "calls (fire s w) = calls w @ [(now w, batch w)]" and "batch (fire s w) = []"
    and "idle_timers (fire s w) = []"
proof -
  let ?w1 = "w\<lparr>timers := remove1 s (timers w)\<rparr>"
  have f: "fire s w = flush Nobody ?w1"
    using assms(1) by (simp add: fire_def Let_def)
  have i: "idle_timers ?w1 = []"
    using assms(3) by (simp add: idle_timers_def filter_remove1)
  show "calls (fire s w) = calls w @ [(now w, batch w)]"
    using assms(2) by (simp add: f calls_flush)
  show "batch (fire s w) = []"
    by (simp add: f)
  show "idle_timers (fire s w) = []"
    using idle_timers_flush_nonempty [OF inv_no_idle [OF i], of Nobody] assms(2) by (simp add: f)
qed

text \<open>The one idle timer fires at its deadline and its flush sends the pending batch.\<close>

lemma advance_fires:
  "idle_timers w = [s] \<Longrightarrow> batch w \<noteq> [] \<Longrightarrow> deadline s \<le> t \<Longrightarrow> now w \<le> deadline s \<Longrightarrow>
   calls (advance_to t w) = calls w @ [(deadline s, batch w)] \<and>
   batch (advance_to t w) = [] \<and> idle_timers (advance_to t w) = []"
proof (induction t w rule: advance_to.induct)
  case (1 t w)
  have s_idle: "s \<in> set (idle_timers w)"
    using "1.prems"(1) by simp
  then have s_due: "s \<in> set (due t w)"
    using "1.prems"(3) by (simp add: due_def idle_timers_def)
  show ?case
  proof (cases "earliest (due t w)")
    case None
    then show ?thesis
      using earliest_None [OF None] s_due by simp
  next
    case (Some m)
    let ?v = "w\<lparr>now := max (now w) (deadline m)\<rparr>"
    let ?w1 = "fire m ?v"
    have m: "m \<in> set (timers w)" "deadline m \<le> t" "deadline m \<le> deadline s"
      using earliest_mem [OF Some] earliest_le [OF Some s_due] by (simp_all add: due_def)
    have unfold: "advance_to t w = advance_to t ?w1"
      by (subst advance_to.simps) (simp add: Some)
    show ?thesis
    proof (cases "callback m")
      case FlushCallback
      then have "m \<in> set (idle_timers w)"
        using m(1) by (simp add: idle_timers_def)
      then have ms: "m = s"
        using "1.prems"(1) by simp
      have nv: "now ?v = deadline s"
        using "1.prems"(4) ms by simp
      have f: "calls ?w1 = calls w @ [(deadline s, batch w)]" "batch ?w1 = []"
          "idle_timers ?w1 = []"
        using calls_fire_idle [of m ?v] FlushCallback "1.prems"(1,2) ms nv by simp_all
      have "same_batcher (advance_to t ?w1) ?w1"
        using advance_quiet [of ?w1 t] f(3) by simp
      then show ?thesis
        using f by (simp add: unfold same_batcher_def)
    next
      case ResolveDelay
      have same: "same_batcher ?w1 w"
        using fire_delay_same(1) [OF ResolveDelay, of ?v] by simp
      have now1: "now ?w1 = max (now w) (deadline m)"
        using fire_delay_same(2) [OF ResolveDelay, of ?v] by simp
      have "calls (advance_to t ?w1) = calls ?w1 @ [(deadline s, batch ?w1)] \<and>
            batch (advance_to t ?w1) = [] \<and> idle_timers (advance_to t ?w1) = []"
        using "1.IH" [OF Some] same "1.prems" now1 m(3) by (simp add: same_batcher_def)
      then show ?thesis
        using same by (simp add: unfold same_batcher_def)
    qed
  qed
qed

lemma same_batcher_inv: "same_batcher w' w \<Longrightarrow> batcher_inv w' = batcher_inv w"
  by (simp add: same_batcher_def batcher_inv_iff)

text \<open>An add below the threshold leaves exactly one idle timer, due one timeout from now.\<close>

lemma add_arms:
  assumes "batcher_inv w" and "Suc (length (batch w)) < batchSize w"
  shows "idle_timers (add c w)
           = [\<lparr>handle = next_handle w, deadline = now w + delay_of (timeout w),
               callback = FlushCallback\<rparr>]"
    and "batch (add c w) = batch w @ [c]" and "calls (add c w) = calls w"
    and "now (add c w) = now w" and "batchSize (add c w) = batchSize w"
    and "timeout (add c w) = timeout w"
proof -
  let ?v = "w\<lparr>batch := batch w @ [c]\<rparr>"
  let ?w1 = "case timer ?v of None \<Rightarrow> ?v | Some h \<Rightarrow> clearTimeout h ?v"
  have a: "add c w = resetTimer ?v"
    using assms(2) by (simp add: add_cases)
  have inv: "batcher_inv ?v"
    using inv_push [OF assms(1)] .
  have "idle_timers ?w1 = []"
  proof (cases "timer ?v")
    case None
    then show ?thesis using inv by (auto simp: batcher_inv_iff)
  next
    case (Some h)
    then show ?thesis
      using idle_timers_cleared [OF inv Some] by (simp add: idle_timers_clearTimeout)
  qed
  moreover have "next_handle ?w1 = next_handle w" "now ?w1 = now w" "timeout ?w1 = timeout w"
    "batch ?w1 \<noteq> []"
    by (simp_all add: clearTimeout_def split: option.splits)
  ultimately show "idle_timers (add c w)
      = [\<lparr>handle = next_handle w, deadline = now w + delay_of (timeout w),
          callback = FlushCallback\<rparr>]"
    unfolding a resetTimer_def by (simp add: Let_def setTimeout_def idle_timers_def)
  show "batch (add c w) = batch w @ [c]" "calls (add c w) = calls w" "now (add c w) = now w"
    "batchSize (add c w) = batchSize w" "timeout (add c w) = timeout w"
    by (simp_all add: a)
qed

text \<open>Events arriving before the idle timer is due only collect, and each re-arms the
  timer one timeout after its own arrival.\<close>

lemma arrive_collects:
  assumes "batcher_inv w"
    and "\<forall>s\<in>set (idle_timers w). now w + d < deadline s"
    and "\<forall>p\<in>set rest. fst p < delay_of (timeout w)"
    and "length (batch w) + Suc (length rest) < batchSize w"
  shows "now (arrive ((d, c) # rest) w) = now w + d + sum_list (map fst rest) \<and>
         batch (arrive ((d, c) # rest) w) = batch w @ c # map snd rest \<and>
         calls (arrive ((d, c) # rest) w) = calls w \<and>
         timeout (arrive ((d, c) # rest) w) = timeout w \<and>
         (\<exists>s. idle_timers (arrive ((d, c) # rest) w) = [s] \<and>
              deadline s = now (arrive ((d, c) # rest) w) + delay_of (timeout w))"
  using assms
proof (induction rest arbitrary: w d c)
  case Nil
  let ?w1 = "advance_to (now w + d) w"
  have q: "same_batcher ?w1 w" "now ?w1 = now w + d"
    using advance_quiet [of w "now w + d"] Nil.prems(2) by simp_all
  have inv1: "batcher_inv ?w1"
    using same_batcher_inv [OF q(1)] Nil.prems(1) by simp
  have below: "Suc (length (batch ?w1)) < batchSize ?w1"
    using q(1) Nil.prems(4) by (simp add: same_batcher_def)
  show ?case
    using add_arms [OF inv1 below, of c] q by (simp add: same_batcher_def)
next
  case (Cons p rest)
  obtain d' c' where p: "p = (d', c')"
    by (cases p)
  let ?w1 = "advance_to (now w + d) w"
  let ?w2 = "add c ?w1"
  have q: "same_batcher ?w1 w" "now ?w1 = now w + d"
    using advance_quiet [of w "now w + d"] Cons.prems(2) by simp_all
  have inv1: "batcher_inv ?w1"
    using same_batcher_inv [OF q(1)] Cons.prems(1) by simp
  have below: "Suc (length (batch ?w1)) < batchSize ?w1"
    using q(1) Cons.prems(4) by (simp add: same_batcher_def)
  note a = add_arms [OF inv1 below, of c]
  have f: "batch ?w2 = batch w @ [c]" "calls ?w2 = calls w" "now ?w2 = now w + d"
    "batchSize ?w2 = batchSize w" "timeout ?w2 = timeout w"
    using a(2-6) q by (simp_all add: same_batcher_def)
  have inv2: "batcher_inv ?w2"
    using inv_add [OF inv1] .
  have first: "\<forall>s\<in>set (idle_timers ?w2). now ?w2 + d' < deadline s"
    using a(1) f(3) q Cons.prems(3) p by (simp add: same_batcher_def)
  have gaps: "\<forall>p\<in>set rest. fst p < delay_of (timeout ?w2)"
    using Cons.prems(3) f(5) by simp
  have size: "length (batch ?w2) + Suc (length rest) < batchSize ?w2"
    using Cons.prems(4) f by simp
  have "arrive ((d, c) # p # rest) w = arrive ((d', c') # rest) ?w2"
    by (simp add: p)
  then show ?case
    using Cons.IH [OF inv2 first gaps size, of c'] f p by auto
qed

text \<open>
  C4. The idle timeout is one the runtime takes as it is (from 1 to \<open>2\<^sup>3\<^sup>1 - 1\<close>
  milliseconds; the program's is 5000). From an empty pending batch with no idle timer
  live, k events arrive, at least one and fewer than the size threshold, each less than
  \<^verbatim>\<open>timeout\<close> milliseconds after the one before (the first after any wait). Each add cancels the timer of the one before and
  arms a new one, so while they arrive no delivery call is made. With the clock running
  on, exactly one delivery call is made: its payload is exactly the k events, and it is
  made \<^verbatim>\<open>timeout\<close> milliseconds after the last add, not earlier, whatever the time of
  the first add was. The pending batch is empty and no idle timer is live afterwards.
\<close>

theorem idle_timeout_counts_from_last_add:
  assumes "batch w = []" and "idle_timers w = []"
    and "xs \<noteq> []" and "length xs < batchSize w"
    and "\<forall>p\<in>set (tl xs). fst p < timeout w"
    and "now w + sum_list (map fst xs) + timeout w \<le> t"
    and "1 \<le> timeout w" and "timeout w \<le> TIMEOUT_MAX"
  shows "now (arrive xs w) = now w + sum_list (map fst xs) \<and>
         calls (arrive xs w) = calls w \<and>
         batch (arrive xs w) = map snd xs \<and>
         (\<forall>t'<now w + sum_list (map fst xs) + timeout w.
            calls (advance_to t' (arrive xs w)) = calls w) \<and>
         calls (advance_to t (arrive xs w))
           = calls w @ [(now w + sum_list (map fst xs) + timeout w, map snd xs)] \<and>
         batch (advance_to t (arrive xs w)) = [] \<and>
         idle_timers (advance_to t (arrive xs w)) = []"
proof -
  obtain d c rest where xs: "xs = (d, c) # rest"
    using assms(3) by (cases xs) auto
  let ?w' = "arrive xs w"
  have inv: "batcher_inv w"
    using inv_no_idle [OF assms(2)] .
  have dly: "delay_of (timeout w) = timeout w"
    using delay_of_in_range [OF assms(7,8)] .
  have size: "length (batch w) + Suc (length rest) < batchSize w"
    using assms(1,4) xs by simp
  have gaps: "\<forall>p\<in>set rest. fst p < delay_of (timeout w)"
    using assms(5) xs by (simp add: dly)
  have first: "\<forall>s\<in>set (idle_timers w). now w + d < deadline s"
    using assms(2) by simp
  note col = arrive_collects [OF inv first gaps size, of c]
  have n: "now ?w' = now w + sum_list (map fst xs)"
    using col xs by simp
  have c: "calls ?w' = calls w"
    using col xs by simp
  have b: "batch ?w' = map snd xs"
    using col xs assms(1) by simp
  obtain s where s: "idle_timers ?w' = [s]" "deadline s = now ?w' + timeout w"
    using col xs by (auto simp: dly)
  have dl: "deadline s = now w + sum_list (map fst xs) + timeout w"
    using s(2) n by simp
  have ne: "batch ?w' \<noteq> []"
    using b assms(3) by simp
  have before: "calls (advance_to t' ?w') = calls w" if "t' < deadline s" for t'
    using advance_quiet [of ?w' t'] that s(1) c by (simp add: same_batcher_def)
  have fires: "calls (advance_to t ?w') = calls ?w' @ [(deadline s, batch ?w')]"
      "batch (advance_to t ?w') = []" "idle_timers (advance_to t ?w') = []"
    using advance_fires [OF s(1) ne, of t] assms(6) dl n by simp_all
  show ?thesis
    using n c b before fires unfolding dl [symmetric] by simp
qed

theorem idle_timeout_counts_from_last_add_witness:
  "calls (advance_to 5100 (arrive [(100, cast_n 0), (4999, cast_n 1), (10, cast_n 2)] started)) = [] \<and>
   calls (advance_to 60000 (arrive [(100, cast_n 0), (4999, cast_n 1), (10, cast_n 2)] started))
     = [(10109, [cast_n 0, cast_n 1, cast_n 2])] \<and>
   batch (advance_to 60000 (arrive [(100, cast_n 0), (4999, cast_n 1), (10, cast_n 2)] started)) = []"
  using idle_timeout_counts_from_last_add
    [of started "[(100, cast_n 0), (4999, cast_n 1), (10, cast_n 2)]" 60000]
  by (simp add: started_fields calls_started TIMEOUT_MAX_def)

end
